theory Spec2Isabelle
  imports Complex_Main "HOL-Library.Word"
begin

section \<open>Outcomes of a call\<close>

text \<open>
  A call of the C++ code either returns a value, or runs into undefined behaviour (a
  remainder by zero, a vector read past its end, a dereference of an empty optional), or
  never returns. An outcome is \<open>Some (Inr v)\<close> for a returned value, \<open>Some (Inl f)\<close>
  for a fault, and \<open>None\<close> only for a call that runs forever.
\<close>

datatype fault = DivisionByZero | OutOfRange | EmptyOptional

type_synonym 'a outcome = "(fault + 'a) option"

definition returns :: "'a \<Rightarrow> 'a outcome" where
  "returns v = Some (Inr v)"

definition faults :: "fault \<Rightarrow> 'a outcome" where
  "faults f = Some (Inl f)"

definition and_then :: "'a outcome \<Rightarrow> ('a \<Rightarrow> 'b outcome) \<Rightarrow> 'b outcome" where
  "and_then m k =
     Option.bind m (\<lambda>r. case r of Inl f \<Rightarrow> Some (Inl f) | Inr v \<Rightarrow> k v)"

lemma and_then_returns [simp]: "and_then (returns v) k = k v"
  by (simp add: and_then_def returns_def)

lemma and_then_faults [simp]: "and_then (faults f) k = faults f"
  by (simp add: and_then_def faults_def)

lemma and_then_None [simp]: "and_then None k = None"
  by (simp add: and_then_def)

lemma returns_neq [simp]:
  "returns v \<noteq> None" "returns v \<noteq> faults f" "faults f \<noteq> None"
  "None \<noteq> returns v" "faults f \<noteq> returns v" "None \<noteq> faults f"
  by (simp_all add: returns_def faults_def)

lemma returns_inject [simp]: "returns v = returns w \<longleftrightarrow> v = w"
  by (simp add: returns_def)

lemma and_then_eq_returns:
  "and_then m k = returns w \<longleftrightarrow> (\<exists>v. m = returns v \<and> k v = returns w)"
  by (cases m) (auto simp: and_then_def returns_def split: sum.splits)

lemma and_then_mono [partial_function_mono]:
  assumes "mono_option B" and "\<And>y. mono_option (\<lambda>f. C y f)"
  shows "mono_option (\<lambda>f. and_then (B f) (\<lambda>y. C y f))"
  unfolding and_then_def
proof (rule bind_mono [OF assms(1)])
  fix r :: "fault + 'c"
  show "mono_option (\<lambda>f. case r of Inl x \<Rightarrow> Some (Inl x) | Inr v \<Rightarrow> C v f)"
    by (cases r) (simp_all add: option.const_mono assms(2))
qed

section \<open>policy.h: the probing policies\<close>

text \<open>
  \<open>std::size_t\<close> is taken as an unsigned 64-bit integer, so the arithmetic of the two
  policy structs wraps modulo \<open>2^64\<close>. The two structs are the two constructors of one
  type; \<open>LinearProbing start mod\<close> is the C++ constructor call, and the constructor of
  \<open>QuadraticProbing\<close> sets \<open>step_number\<close> to 1.
\<close>

datatype CollisionPolicy =
    LinearProbing (current: "64 word") (modulus: "64 word")
  | QuadraticProbing (current: "64 word") (modulus: "64 word") (step_number: "64 word")

definition QuadraticProbing_new :: "64 word \<Rightarrow> 64 word \<Rightarrow> CollisionPolicy" where
  "QuadraticProbing_new start m = QuadraticProbing start m 1"

text \<open>
  \<open>operator++\<close>: the new state of the policy; the value the operator returns is the
  \<open>current\<close> field of that state. The remainder by a zero \<open>mod\<close> is undefined in C++.
\<close>

fun advance :: "CollisionPolicy \<Rightarrow> fault + CollisionPolicy" where
  "advance (LinearProbing c m) =
     (if m = 0 then Inl DivisionByZero else Inr (LinearProbing ((c + 1) mod m) m))"
| "advance (QuadraticProbing c m s) =
     (if m = 0 then Inl DivisionByZero
      else Inr (QuadraticProbing ((c + s * s) mod m) m (s + 1)))"

text \<open>The policy after \<open>n\<close> calls of \<open>operator++\<close>.\<close>

fun advance_n :: "nat \<Rightarrow> CollisionPolicy \<Rightarrow> fault + CollisionPolicy" where
  "advance_n 0 p = Inr p"
| "advance_n (Suc n) p =
     (case advance_n n p of Inl f \<Rightarrow> Inl f | Inr q \<Rightarrow> advance q)"

section \<open>hash\_map.h and hash\_set.h: the table\<close>

text \<open>
  \<open>HashMap\<close> and \<open>HashSet\<close> are the same code up to the stored \<open>value_type\<close>
  (a pair of key and mapped value, or the key itself) and the names of the fields
  (\<open>map_size\<close>/\<open>set_size\<close>, \<open>hash_map\<close>/\<open>hash_set\<close>, ...). One model serves both: the
  template parameters are a record of the policy constructor, the hash function and the
  projection from a stored value to its key (\<open>fst\<close> for the map, the identity for the
  set). Keys are compared with HOL equality, the default \<open>std::equal_to<Key>\<close>.

  The sizes and indices of the table (\<open>size_type\<close>) are natural numbers: each is bounded
  by the length of a vector that fits in memory, far below \<open>2^64\<close>. The one place where
  the code subtracts, \<open>--map_size\<close>, has its wrap-around written out.
\<close>

record ('e, 'k) traits =
  policy :: "64 word \<Rightarrow> 64 word \<Rightarrow> CollisionPolicy"
  hasher :: "'k \<Rightarrow> nat"
  key_of :: "'e \<Rightarrow> 'k"

record 'e table =
  map_size :: nat
  map_max_size :: nat
  hash_map :: "'e option list"
  deleted :: "bool list"
  first_ind :: nat

definition map_traits ::
  "(64 word \<Rightarrow> 64 word \<Rightarrow> CollisionPolicy) \<Rightarrow> ('k \<Rightarrow> nat) \<Rightarrow> ('k \<times> 'v, 'k) traits" where
  "map_traits pol h = \<lparr>policy = pol, hasher = h, key_of = fst\<rparr>"

definition set_traits ::
  "(64 word \<Rightarrow> 64 word \<Rightarrow> CollisionPolicy) \<Rightarrow> ('k \<Rightarrow> nat) \<Rightarrow> ('k, 'k) traits" where
  "set_traits pol h = \<lparr>policy = pol, hasher = h, key_of = (\<lambda>k. k)\<rparr>"

text \<open>The constructor from \<open>expected_max_size\<close> (0 by default).\<close>

definition HashMap :: "nat \<Rightarrow> 'e table" where
  "HashMap expected_max_size =
     \<lparr>map_size = 0, map_max_size = expected_max_size,
      hash_map = replicate (expected_max_size * 2) None,
      deleted = replicate (expected_max_size * 2) True,
      first_ind = expected_max_size * 2\<rparr>"

definition HashSet :: "nat \<Rightarrow> 'k table" where
  "HashSet expected_max_size = HashMap expected_max_size"

definition bucket_count :: "'e table \<Rightarrow> nat" where
  "bucket_count t = map_max_size t * 2"

text \<open>
  \<open>load_factor\<close> divides in single precision. Below \<open>2^24\<close> buckets both operands are
  exact floats and the comparison of the quotient with 0.5 agrees with the comparison of
  the exact quotient, which is what the model computes. Above that the rounded quotient
  is at least 0.5 whenever the exact one is (rounding is monotone and 0.5 is a float).
\<close>

definition load_factor :: "'e table \<Rightarrow> rat" where
  "load_factor t =
     (if map_max_size t \<noteq> 0 then of_nat (map_size t) / of_nat (bucket_count t) else 1)"

definition max_load_factor :: rat where
  "max_load_factor = 1 / 2"

text \<open>
  The \<open>while\<close> loop of \<open>find_index\<close>. Nothing bounds the number of its rounds, so it is
  a partial function: \<open>None\<close> is the loop that never ends.
\<close>

partial_function (option) probe_loop ::
  "('e \<Rightarrow> 'k) \<Rightarrow> 'e option list \<Rightarrow> bool list \<Rightarrow> 'k \<Rightarrow> bool \<Rightarrow> CollisionPolicy \<Rightarrow> nat
     \<Rightarrow> nat outcome"
where
  "probe_loop kf hm del key ins p current_ind =
     (if current_ind < length hm \<and> current_ind < length del then
        (case hm ! current_ind of
           None \<Rightarrow> returns current_ind
         | Some e \<Rightarrow>
             if (\<not> del ! current_ind \<or> \<not> ins) \<and> kf e \<noteq> key then
               (case advance p of
                  Inl f \<Rightarrow> faults f
                | Inr p' \<Rightarrow> probe_loop kf hm del key ins p' (unat (current p')))
             else returns current_ind)
      else faults OutOfRange)"

definition find_index :: "('e, 'k) traits \<Rightarrow> 'k \<Rightarrow> bool \<Rightarrow> 'e table \<Rightarrow> nat outcome" where
  "find_index cfg key ins t =
     (if hash_map t = [] \<and> \<not> ins then returns (map_max_size t * 2)
      else if hash_map t = [] then faults DivisionByZero
      else
        (let current_ind = hasher cfg key mod length (hash_map t);
             p = policy cfg (of_nat current_ind) (of_nat (length (hash_map t)))
         in and_then (probe_loop (key_of cfg) (hash_map t) (deleted t) key ins p current_ind)
              (\<lambda>i. returns
                 (if ins \<or> (case hash_map t ! i of
                               None \<Rightarrow> False
                             | Some e \<Rightarrow> \<not> deleted t ! i \<and> key_of cfg e = key)
                  then i else map_max_size t * 2))))"

definition update_after_insert :: "nat \<Rightarrow> 'e table \<Rightarrow> 'e table" where
  "update_after_insert to_update t =
     t\<lparr>deleted := (deleted t)[to_update := False],
       first_ind := (if map_size t = 0 then to_update else min (first_ind t) to_update),
       map_size := map_size t + 1\<rparr>"

text \<open>
  The body that all overloads of \<open>emplace_impl\<close>, \<open>try_emplace\<close> and the set's
  \<open>insert\<close> share after their call of \<open>check_fullness\<close>: resolve the slot, and fill it
  when it is empty or tombstoned. The result is the table, the index of the returned
  iterator and the flag \<open>inserted\<close>.
\<close>

definition install ::
  "('e, 'k) traits \<Rightarrow> 'e \<Rightarrow> 'e table \<Rightarrow> ('e table \<times> nat \<times> bool) outcome" where
  "install cfg e t =
     and_then (find_index cfg (key_of cfg e) True t)
       (\<lambda>insert_ind.
          if hash_map t ! insert_ind = None \<or> deleted t ! insert_ind then
            returns (update_after_insert insert_ind
                       (t\<lparr>hash_map := (hash_map t)[insert_ind := Some e]\<rparr>), insert_ind, True)
          else returns (t, insert_ind, False))"

text \<open>
  \<open>rehash\<close> calls \<open>emplace\<close> for every live slot of the old vectors, and \<open>emplace\<close>
  calls \<open>check_fullness\<close>, which may call \<open>rehash\<close>. The recursion is tied in
  \<open>emplace\<close> below; until then \<open>rehash\<close> and \<open>check_fullness\<close> take the \<open>emplace\<close>
  they call as their first argument. \<open>rehash_loop\<close> is the \<open>for\<close> loop over
  \<open>temp_map\<close> and \<open>temp_deleted\<close>, two vectors of one length.
\<close>

fun rehash_loop ::
  "('e \<Rightarrow> 'e table \<Rightarrow> 'e table outcome) \<Rightarrow> ('e option \<times> bool) list \<Rightarrow> 'e table
     \<Rightarrow> 'e table outcome"
where
  "rehash_loop emp [] t = returns t"
| "rehash_loop emp ((slot, del) # rest) t =
     (case slot of
        None \<Rightarrow> rehash_loop emp rest t
      | Some e \<Rightarrow>
          if \<not> del then and_then (emp e t) (rehash_loop emp rest)
          else rehash_loop emp rest t)"

definition rehash_with ::
  "('e \<Rightarrow> 'e table \<Rightarrow> 'e table outcome) \<Rightarrow> nat \<Rightarrow> 'e table \<Rightarrow> 'e table outcome"
where
  "rehash_with emp count t =
     (let new_size =
            (if count = 0 \<and> hash_map t = [] then 2
             else if count < map_size t * 2 then map_size t * 2 + 2
             else count + 1)
      in rehash_loop emp (zip (hash_map t) (deleted t)) (HashMap new_size))"

definition check_fullness_with ::
  "('e \<Rightarrow> 'e table \<Rightarrow> 'e table outcome) \<Rightarrow> 'e table \<Rightarrow> 'e table outcome"
where
  "check_fullness_with emp t =
     (if load_factor t \<ge> max_load_factor then rehash_with emp (map_max_size t * 2) t
      else returns t)"

lemma rehash_loop_mono [partial_function_mono]:
  assumes "\<And>e t. mono_option (\<lambda>f. F f e t)"
  shows "mono_option (\<lambda>f. rehash_loop (F f) xs t)"
  using assms
proof (induction xs arbitrary: t)
  case Nil
  show ?case by (simp add: option.const_mono)
next
  case (Cons x xs)
  obtain s d where x: "x = (s, d)" by (cases x)
  have ih: "mono_option (\<lambda>f. rehash_loop (F f) xs t')" for t'
    by (rule Cons.IH) (rule Cons.prems)
  show ?case
  proof (cases s)
    case None
    then show ?thesis using ih by (simp add: x)
  next
    case (Some e)
    show ?thesis
    proof (cases d)
      case True
      then show ?thesis using ih by (simp add: x Some)
    next
      case False
      have "mono_option (\<lambda>f. and_then (F f e t) (rehash_loop (F f) xs))"
        by (rule and_then_mono) (rule Cons.prems, rule ih)
      then show ?thesis by (simp add: x Some False)
    qed
  qed
qed

lemma rehash_with_mono [partial_function_mono]:
  assumes "\<And>e t. mono_option (\<lambda>f. F f e t)"
  shows "mono_option (\<lambda>f. rehash_with (F f) n t)"
  unfolding rehash_with_def Let_def by (rule rehash_loop_mono) (rule assms)

lemma check_fullness_with_mono [partial_function_mono]:
  assumes "\<And>e t. mono_option (\<lambda>f. F f e t)"
  shows "mono_option (\<lambda>f. check_fullness_with (F f) t)"
  unfolding check_fullness_with_def
  by (intro if_mono option.const_mono rehash_with_mono assms)

text \<open>
  \<open>emplace\<close>: \<open>check_fullness()\<close>, then the shared body. The \<open>emplace\<close> that \<open>rehash\<close>
  calls drops the returned pair.
\<close>

partial_function (option) emplace ::
  "('e, 'k) traits \<Rightarrow> 'e \<Rightarrow> 'e table \<Rightarrow> ('e table \<times> nat \<times> bool) outcome"
where
  "emplace cfg e t =
     and_then
       (check_fullness_with (\<lambda>e' t'. and_then (emplace cfg e' t') (\<lambda>r. returns (fst r))) t)
       (install cfg e)"

definition re_emplace :: "('e, 'k) traits \<Rightarrow> 'e \<Rightarrow> 'e table \<Rightarrow> 'e table outcome" where
  "re_emplace cfg e t = and_then (emplace cfg e t) (\<lambda>r. returns (fst r))"

definition rehash :: "('e, 'k) traits \<Rightarrow> nat \<Rightarrow> 'e table \<Rightarrow> 'e table outcome" where
  "rehash cfg count t = rehash_with (re_emplace cfg) count t"

definition check_fullness :: "('e, 'k) traits \<Rightarrow> 'e table \<Rightarrow> 'e table outcome" where
  "check_fullness cfg t = check_fullness_with (re_emplace cfg) t"

text \<open>\<open>find\<close>: the index of the returned iterator; \<open>map_max_size * 2\<close> is \<open>end()\<close>.\<close>

definition find :: "('e, 'k) traits \<Rightarrow> 'k \<Rightarrow> 'e table \<Rightarrow> nat outcome" where
  "find cfg key t = find_index cfg key False t"

text \<open>
  The iterator's \<open>operator++\<close>: a \<open>do ... while\<close> loop, so the index moves at least one
  step, then on while it stands inside the vector on an empty or tombstoned slot.
\<close>

function skip_free :: "'e table \<Rightarrow> nat \<Rightarrow> nat" where
  "skip_free t c =
     (if c < length (hash_map t) \<and> (hash_map t ! c = None \<or> deleted t ! c)
      then skip_free t (c + 1) else c)"
  by pat_completeness auto
termination
  by (relation "measure (\<lambda>(t, c). length (hash_map t) - c)") auto

declare skip_free.simps [simp del]

definition increment :: "'e table \<Rightarrow> nat \<Rightarrow> nat" where
  "increment t c = skip_free t (c + 1)"

text \<open>
  \<open>erase(const_iterator pos)\<close>, with the iterator given by its index; the result is the
  table and the index of the returned iterator. \<open>erase(const key_type &)\<close> returns the
  table and the count 0 or 1.
\<close>

definition erase :: "nat \<Rightarrow> 'e table \<Rightarrow> ('e table \<times> nat) outcome" where
  "erase pos t =
     (if pos < length (hash_map t) \<and> pos < length (deleted t) then
        (if hash_map t ! pos \<noteq> None then
           (let t1 = t\<lparr>deleted := (deleted t)[pos := True],
                       map_size := (if map_size t = 0 then 2 ^ 64 - 1 else map_size t - 1)\<rparr>;
                it = increment t1 pos
            in returns (if pos = first_ind t1 then t1\<lparr>first_ind := it\<rparr> else t1, it))
         else returns (t, pos))
      else faults OutOfRange)"

definition erase_key :: "('e, 'k) traits \<Rightarrow> 'k \<Rightarrow> 'e table \<Rightarrow> ('e table \<times> nat) outcome" where
  "erase_key cfg key t =
     and_then (find cfg key t)
       (\<lambda>it. if it \<noteq> map_max_size t * 2
             then and_then (erase it t) (\<lambda>r. returns (fst r, 1))
             else returns (t, 0))"

definition clear :: "'e table \<Rightarrow> 'e table" where
  "clear t =
     t\<lparr>hash_map := replicate (map_max_size t * 2) None,
       deleted := replicate (map_max_size t * 2) True,
       map_size := 0,
       first_ind := 0\<rparr>"

text \<open>
  Iteration \<open>for (it = begin(); it != end(); ++it)\<close>, collecting \<open>*it\<close>: \<open>begin()\<close>
  stands at \<open>first_ind\<close>, \<open>end()\<close> at \<open>map_max_size * 2\<close>, and \<open>*it\<close> dereferences the
  optional of the slot.
\<close>

lemma skip_free_ge: "c \<le> skip_free t c"
  by (induction t c rule: skip_free.induct) (subst skip_free.simps, auto)

function iterate_from :: "'e table \<Rightarrow> nat \<Rightarrow> 'e list outcome" where
  "iterate_from t c =
     (if c = map_max_size t * 2 then returns []
      else if c < length (hash_map t) then
        (case hash_map t ! c of
           None \<Rightarrow> faults EmptyOptional
         | Some e \<Rightarrow> and_then (iterate_from t (increment t c)) (\<lambda>es. returns (e # es)))
      else faults OutOfRange)"
  by pat_completeness auto
termination
proof (relation "measure (\<lambda>(t, c). length (hash_map t) - c)")
  show "wf (measure (\<lambda>(t::'a table, c). length (hash_map t) - c))" by simp
next
  fix t :: "'a table" and c
  assume "c < length (hash_map t)"
  moreover have "c + 1 \<le> increment t c"
    unfolding increment_def by (rule skip_free_ge)
  ultimately show "((t, increment t c), t, c) \<in> measure (\<lambda>(t, c). length (hash_map t) - c)"
    by simp
qed

declare iterate_from.simps [simp del]

definition iterate :: "'e table \<Rightarrow> 'e list outcome" where
  "iterate t = iterate_from t (first_ind t)"

section \<open>Client programs\<close>

text \<open>
  A straight-line client: a list of \<open>insert\<close> (or \<open>emplace\<close>) and \<open>erase(key)\<close> calls,
  run in order on a table.
\<close>

datatype ('e, 'k) call = Insert 'e | Erase 'k

fun apply_call :: "('e, 'k) traits \<Rightarrow> ('e, 'k) call \<Rightarrow> 'e table \<Rightarrow> 'e table outcome" where
  "apply_call cfg (Insert e) t = and_then (emplace cfg e t) (\<lambda>r. returns (fst r))"
| "apply_call cfg (Erase k) t = and_then (erase_key cfg k t) (\<lambda>r. returns (fst r))"

fun run :: "('e, 'k) traits \<Rightarrow> ('e, 'k) call list \<Rightarrow> 'e table \<Rightarrow> 'e table outcome" where
  "run cfg [] t = returns t"
| "run cfg (c # cs) t = and_then (apply_call cfg c t) (run cfg cs)"

section \<open>Notions of the specification\<close>

text \<open>
  A slot is live when it is occupied and not tombstoned. \<open>live_slots\<close> lists the live
  indices in increasing order, \<open>slots_of\<close> those that hold a given key.
\<close>

definition live :: "'e table \<Rightarrow> nat \<Rightarrow> bool" where
  "live t i = (i < length (hash_map t) \<and> hash_map t ! i \<noteq> None \<and> \<not> deleted t ! i)"

definition live_slots :: "'e table \<Rightarrow> nat list" where
  "live_slots t = filter (live t) [0..<length (hash_map t)]"

definition slots_of :: "('e, 'k) traits \<Rightarrow> 'e table \<Rightarrow> 'k \<Rightarrow> nat list" where
  "slots_of cfg t k =
     filter (\<lambda>i. map_option (key_of cfg) (hash_map t ! i) = Some k) (live_slots t)"

definition live_count :: "'e table \<Rightarrow> nat" where
  "live_count t =
     length (filter (\<lambda>sd. fst sd \<noteq> None \<and> \<not> snd sd) (zip (hash_map t) (deleted t)))"

text \<open>
  The class invariant the code relies on: both vectors have \<open>map_max_size * 2\<close>
  elements, and \<open>map_size\<close> counts the live slots.
\<close>

definition consistent :: "'e table \<Rightarrow> bool" where
  "consistent t =
     (length (hash_map t) = map_max_size t * 2 \<and> length (deleted t) = map_max_size t * 2
      \<and> map_size t = live_count t)"

section \<open>Unfolding the calls\<close>

lemma emplace_eq: "emplace cfg e t = and_then (check_fullness cfg t) (install cfg e)"
  by (subst emplace.simps) (simp add: check_fullness_def re_emplace_def [abs_def])

lemma check_fullness_below:
  "load_factor t < max_load_factor \<Longrightarrow> check_fullness cfg t = returns t"
  by (simp add: check_fullness_def check_fullness_with_def)

lemma check_fullness_reached:
  "max_load_factor \<le> load_factor t
     \<Longrightarrow> check_fullness cfg t = rehash cfg (map_max_size t * 2) t"
  by (simp add: check_fullness_def check_fullness_with_def rehash_def)

lemmas run_simps =
  emplace_eq check_fullness_below check_fullness_reached rehash_def rehash_with_def
  re_emplace_def install_def find_index_def probe_loop.simps update_after_insert_def
  HashMap_def HashSet_def load_factor_def max_load_factor_def bucket_count_def
  find_def erase_key_def erase_def increment_def skip_free.simps
  map_traits_def set_traits_def Let_def

lemma replicate_2: "replicate 2 x = [x, x]"
  by (simp add: eval_nat_numeral)

lemma replicate_4: "replicate 4 x = [x, x, x, x]"
  by (simp add: eval_nat_numeral)

lemma replicate_8: "replicate 8 x = [x, x, x, x, x, x, x, x]"
  by (simp add: eval_nat_numeral)

lemma replicate_10: "replicate 10 x = [x, x, x, x, x, x, x, x, x, x]"
  by (simp add: eval_nat_numeral)

lemma replicate_12: "replicate 12 x = [x, x, x, x, x, x, x, x, x, x, x, x]"
  by (simp add: eval_nat_numeral)

lemmas small_tables =
  replicate_2 replicate_4 replicate_8 replicate_10 replicate_12 numeral_2_eq_2 [symmetric]

text \<open>
  A walk that stays inside a set \<open>S\<close> of (policy state, index) pairs, every index of
  which is an occupied slot that the loop condition passes, never leaves the loop.
\<close>

lemma probe_loop_cycle:
  assumes step: "\<And>p c. S p c \<Longrightarrow>
      c < length hm \<and> c < length del \<and>
      (\<exists>e. hm ! c = Some e \<and> (\<not> del ! c \<or> \<not> ins) \<and> kf e \<noteq> key) \<and>
      (\<exists>p'. advance p = Inr p' \<and> S p' (unat (current p')))"
    and start: "S p c"
  shows "probe_loop kf hm del key ins p c = None"
proof (rule ccontr)
  assume "probe_loop kf hm del key ins p c \<noteq> None"
  then obtain y where y: "probe_loop kf hm del key ins p c = Some y" by auto
  have "\<not> (kf = kf \<and> hm = hm \<and> del = del \<and> key = key \<and> ins = ins \<and> S p c)"
  proof (rule probe_loop.raw_induct
      [where P = "\<lambda>kf' hm' del' key' ins' p' c' y.
           \<not> (kf' = kf \<and> hm' = hm \<and> del' = del \<and> key' = key \<and> ins' = ins \<and> S p' c')",
        OF _ y])
    fix pl kf' hm' del' key' ins' p' c' y'
    assume ih: "\<And>kf' hm' del' key' ins' p' c' y.
          pl kf' hm' del' key' ins' p' c' = Some y \<Longrightarrow>
          \<not> (kf' = kf \<and> hm' = hm \<and> del' = del \<and> key' = key \<and> ins' = ins \<and> S p' c')"
      and body: "(if c' < length hm' \<and> c' < length del'
          then case hm' ! c' of None \<Rightarrow> returns c'
               | Some e \<Rightarrow>
                   if (\<not> del' ! c' \<or> \<not> ins') \<and> kf' e \<noteq> key'
                   then case advance p' of Inl f \<Rightarrow> faults f
                        | Inr p'' \<Rightarrow> pl kf' hm' del' key' ins' p'' (unat (current p''))
                   else returns c'
          else faults OutOfRange) = Some y'"
    show "\<not> (kf' = kf \<and> hm' = hm \<and> del' = del \<and> key' = key \<and> ins' = ins \<and> S p' c')"
    proof
      assume a: "kf' = kf \<and> hm' = hm \<and> del' = del \<and> key' = key \<and> ins' = ins \<and> S p' c'"
      then have s: "S p' c'" by simp
      from step [OF s] obtain e q where
        "c' < length hm" "c' < length del" "hm ! c' = Some e"
        "(\<not> del ! c' \<or> \<not> ins) \<and> kf e \<noteq> key" "advance p' = Inr q" "S q (unat (current q))"
        by blast
      with body a have "pl kf hm del key ins q (unat (current q)) = Some y'"
        by simp
      from ih [OF this] \<open>S q (unat (current q))\<close> show False by simp
    qed
  qed
  with start show False by simp
qed

section \<open>Concrete tables\<close>

text \<open>
  \<open>HashMap<size_t, size_t>\<close> and \<open>HashSet<size_t>\<close> with the default
  \<open>LinearProbing\<close> and a hash that returns its argument (as \<open>std::hash<size_t>\<close>
  does in libstdc++ and libc++).
\<close>

definition identity_map :: "(nat \<times> nat, nat) traits" where
  "identity_map = map_traits LinearProbing (\<lambda>k. k)"

definition identity_set :: "(nat, nat) traits" where
  "identity_set = set_traits LinearProbing (\<lambda>k. k)"

text \<open>The map and the set after \<open>insert 0, insert 4, erase 0, insert 4\<close>.\<close>

definition doubled_map :: "(nat \<times> nat) table" where
  "doubled_map =
     \<lparr>map_size = 2, map_max_size = 2,
      hash_map = [Some (4, 30), Some (4, 20), None, None],
      deleted = [False, False, True, True], first_ind = 0\<rparr>"

definition doubled_set :: "nat table" where
  "doubled_set =
     \<lparr>map_size = 2, map_max_size = 2,
      hash_map = [Some 4, Some 4, None, None],
      deleted = [False, False, True, True], first_ind = 0\<rparr>"

lemma run_doubled_map:
  "run identity_map [Insert (0, 10), Insert (4, 20), Erase 0, Insert (4, 30)] (HashMap 0)
     = returns doubled_map"
  by (simp add: run_simps small_tables identity_map_def doubled_map_def)

lemma run_doubled_set:
  "run identity_set [Insert 0, Insert 4, Erase 0, Insert 4] (HashSet 0) = returns doubled_set"
  by (simp add: run_simps small_tables identity_set_def doubled_set_def)

text \<open>
  A map built with \<open>expected_max_size = 1\<close> after \<open>insert 0, erase 0, insert 1, erase 1\<close>:
  both of its slots are tombstoned.
\<close>

definition saturated_map :: "(nat \<times> nat) table" where
  "saturated_map =
     \<lparr>map_size = 0, map_max_size = 1,
      hash_map = [Some (0, 10), Some (1, 20)],
      deleted = [True, True], first_ind = 2\<rparr>"

lemma run_saturated_map:
  "run identity_map [Insert (0, 10), Erase 0, Insert (1, 20), Erase 1] (HashMap 1)
     = returns saturated_map"
  by (simp add: run_simps small_tables identity_map_def saturated_map_def)

lemma probe_saturated_map:
  "probe_loop fst [Some (0::nat, 10::nat), Some (1, 20)] [True, True] 2 False
     (LinearProbing 0 2) 0 = None"
  by (rule probe_loop_cycle
        [where S = "\<lambda>p c. (p = LinearProbing 0 2 \<and> c = 0) \<or> (p = LinearProbing 1 2 \<and> c = 1)"])
     auto

lemma find_saturated_map: "find identity_map 2 saturated_map = None"
  using probe_saturated_map
  by (simp add: find_def find_index_def identity_map_def map_traits_def saturated_map_def
        Let_def small_tables)

text \<open>
  A map built with \<open>expected_max_size = 4\<close> after
  \<open>insert (0,10), insert (8,20), erase 0, insert (8,30), erase 8, insert (16,40),
  insert (8,50)\<close>; the keys 0, 8 and 16 start at slot 0 of its 8 slots.
\<close>

definition stale_map :: "(nat \<times> nat) table" where
  "stale_map =
     \<lparr>map_size = 2, map_max_size = 4,
      hash_map = [Some (16, 40), Some (8, 20), None, None, None, None, None, None],
      deleted = [False, False, True, True, True, True, True, True], first_ind = 0\<rparr>"

lemma run_stale_map:
  "run identity_map
     [Insert (0, 10), Insert (8, 20), Erase 0, Insert (8, 30), Erase 8, Insert (16, 40),
      Insert (8, 50)] (HashMap 4) = returns stale_map"
  by (simp add: run_simps small_tables identity_map_def stale_map_def)

text \<open>
  The default map after \<open>insert (3,10), insert (7,20), erase 3, insert (7,30)\<close> (the
  keys 3 and 7 start at slot 3 of 4, and the walk of 7 wraps to slot 0), and the same map
  after one more \<open>insert (1,0)\<close>, which grows it to 10 slots.
\<close>

definition wrapped_map :: "(nat \<times> nat) table" where
  "wrapped_map =
     \<lparr>map_size = 2, map_max_size = 2,
      hash_map = [Some (7, 20), None, None, Some (7, 30)],
      deleted = [False, True, True, False], first_ind = 0\<rparr>"

definition regrown_map :: "(nat \<times> nat) table" where
  "regrown_map =
     \<lparr>map_size = 2, map_max_size = 5,
      hash_map = [None, Some (1, 0), None, None, None, None, None, Some (7, 20), None, None],
      deleted = [True, False, True, True, True, True, True, False, True, True],
      first_ind = 1\<rparr>"

lemma run_wrapped_map:
  "run identity_map [Insert (3, 10), Insert (7, 20), Erase 3, Insert (7, 30)] (HashMap 0)
     = returns wrapped_map"
  by (simp add: run_simps small_tables identity_map_def wrapped_map_def)

lemma emplace_wrapped_map:
  "emplace identity_map (1, 0) wrapped_map = returns (regrown_map, 1, True)"
  by (simp add: run_simps small_tables identity_map_def wrapped_map_def regrown_map_def)

text \<open>The first candidate of a walk in a fresh table is an empty slot.\<close>

lemma emplace_fresh:
  assumes "0 < n"
  shows "emplace cfg e (HashMap n) =
           returns (\<lparr>map_size = 1, map_max_size = n,
                     hash_map = (replicate (n * 2) None)
                                  [hasher cfg (key_of cfg e) mod (n * 2) := Some e],
                     deleted = (replicate (n * 2) True)
                                 [hasher cfg (key_of cfg e) mod (n * 2) := False],
                     first_ind = hasher cfg (key_of cfg e) mod (n * 2)\<rparr>,
                    hasher cfg (key_of cfg e) mod (n * 2), True)"
proof -
  have "load_factor (HashMap n :: 'a table) < max_load_factor"
    using assms by (simp add: load_factor_def max_load_factor_def HashMap_def)
  moreover have "install cfg e (HashMap n) = returns
      (\<lparr>map_size = 1, map_max_size = n,
        hash_map = (replicate (n * 2) None) [hasher cfg (key_of cfg e) mod (n * 2) := Some e],
        deleted = (replicate (n * 2) True) [hasher cfg (key_of cfg e) mod (n * 2) := False],
        first_ind = hasher cfg (key_of cfg e) mod (n * 2)\<rparr>,
       hasher cfg (key_of cfg e) mod (n * 2), True)"
    using assms
    by (simp add: install_def find_index_def Let_def HashMap_def probe_loop.simps
          update_after_insert_def)
  ultimately show ?thesis by (simp add: emplace_eq check_fullness_below)
qed

lemma find_after_emplace_fresh:
  assumes "0 < n"
  shows "find cfg (key_of cfg e)
           \<lparr>map_size = 1, map_max_size = n,
            hash_map = (replicate (n * 2) None)
                         [hasher cfg (key_of cfg e) mod (n * 2) := Some e],
            deleted = (replicate (n * 2) True)
                        [hasher cfg (key_of cfg e) mod (n * 2) := False],
            first_ind = hasher cfg (key_of cfg e) mod (n * 2)\<rparr>
         = returns (hasher cfg (key_of cfg e) mod (n * 2))"
  using assms by (simp add: find_def find_index_def Let_def probe_loop.simps)

lemma rehash_loop_no_live:
  "filter (\<lambda>sd. fst sd \<noteq> None \<and> \<not> snd sd) zs = [] \<Longrightarrow> rehash_loop emp zs t = returns t"
  by (induction zs) (auto split: option.splits if_splits)

text \<open>The candidate indices of a walk: the start, then what \<open>n\<close> calls of \<open>operator++\<close> return.\<close>

fun candidates :: "nat \<Rightarrow> CollisionPolicy \<Rightarrow> nat list" where
  "candidates 0 p = [unat (current p)]"
| "candidates (Suc n) p =
     unat (current p) # (case advance p of Inl f \<Rightarrow> [] | Inr q \<Rightarrow> candidates n q)"

lemma advance_n_quadratic:
  "m \<noteq> 0 \<Longrightarrow>
     \<exists>c. advance_n n (QuadraticProbing_new s m) = Inr (QuadraticProbing c m (of_nat n + 1))"
  by (induction n) (auto simp: QuadraticProbing_new_def)

lemma quadratic_step:
  assumes "m \<noteq> 0" and "advance_n i (QuadraticProbing_new s m) = Inr q"
  shows "advance_n (Suc i) (QuadraticProbing_new s m) =
           Inr (QuadraticProbing ((current q + (of_nat (Suc i))\<^sup>2) mod m) m (of_nat (Suc i) + 1))"
proof -
  from advance_n_quadratic [OF assms(1), of i s] assms(2)
  obtain c where "q = QuadraticProbing c m (of_nat i + 1)" by auto
  then show ?thesis using assms by (simp add: power2_eq_square algebra_simps)
qed

lemma unat_add_mod8: "unat (a + b :: 64 word) mod 8 = (unat a + unat b) mod 8"
proof -
  have "unat (a + b) = (unat a + unat b) mod 2 ^ 64"
    by (simp add: unat_word_ariths)
  moreover have "(8::nat) dvd 2 ^ 64" by simp
  ultimately show ?thesis by (simp only: mod_mod_cancel)
qed

lemma quadratic_mod8:
  "candidates 3 (QuadraticProbing_new s 8) =
     [unat s, (unat s + 1) mod 8, (unat s + 5) mod 8, (unat s + 14) mod 8]"
  by (simp add: QuadraticProbing_new_def numeral_3_eq_3 unat_mod_distrib unat_add_mod8
        mod_simps)
     (simp add: add.commute)

section \<open>Invariants of the table\<close>

text \<open>
  What follows holds for every probing policy unless \<open>LinearProbing\<close> is named: with
  it a walk is shown to end, for the other policies the results are about the calls that
  return.
\<close>

lemma length_filter_update:
  "i < length xs \<Longrightarrow>
     length (filter P (xs[i := y])) + (if P (xs ! i) then 1 else 0) =
     length (filter P xs) + (if P y then 1 else 0)"
proof (induction xs arbitrary: i)
  case Nil
  then show ?case by simp
next
  case (Cons x xs)
  then show ?case by (cases i) auto
qed

lemma probe_loop_result:
  assumes "probe_loop kf hm del key ins p c = returns i"
  shows "i < length hm \<and> i < length del"
proof -
  have "\<forall>j. y = Inr j \<longrightarrow> j < length hm \<and> j < length del"
    if "probe_loop kf hm del key ins p c = Some y" for y
  proof (rule probe_loop.raw_induct
      [where P = "\<lambda>kf' hm' del' key' ins' p' c' y.
                    \<forall>j. y = Inr j \<longrightarrow> j < length hm' \<and> j < length del'", OF _ that])
    fix pl kf' hm' del' key' ins' p' c' y'
    assume ih: "\<And>kf' hm' del' key' ins' p' c' y.
          pl kf' hm' del' key' ins' p' c' = Some y \<Longrightarrow>
          \<forall>j. y = Inr j \<longrightarrow> j < length hm' \<and> j < length del'"
      and body: "(if c' < length hm' \<and> c' < length del'
          then case hm' ! c' of None \<Rightarrow> returns c'
               | Some e \<Rightarrow>
                   if (\<not> del' ! c' \<or> \<not> ins') \<and> kf' e \<noteq> key'
                   then case advance p' of Inl f \<Rightarrow> faults f
                        | Inr p'' \<Rightarrow> pl kf' hm' del' key' ins' p'' (unat (current p''))
                   else returns c'
          else faults OutOfRange) = Some y'"
    show "\<forall>j. y' = Inr j \<longrightarrow> j < length hm' \<and> j < length del'"
      using body ih
      by (auto simp: returns_def faults_def split: if_splits option.splits sum.splits)
  qed
  with assms show ?thesis by (simp add: returns_def)
qed

lemma find_index_insert_result:
  assumes "find_index cfg k True t = returns i"
  shows "i < length (hash_map t) \<and> i < length (deleted t)"
  using assms
  by (auto simp: find_index_def Let_def and_then_eq_returns split: if_splits
      dest: probe_loop_result)

lemma load_factor_less_iff:
  "load_factor t < max_load_factor \<longleftrightarrow> map_max_size t \<noteq> 0 \<and> map_size t < map_max_size t"
proof (cases "map_max_size t = 0")
  case True
  then show ?thesis by (simp add: load_factor_def max_load_factor_def)
next
  case False
  have "(of_nat (map_size t) :: rat) / of_nat (map_max_size t * 2) < 1 / 2
          \<longleftrightarrow> (of_nat (map_size t) :: rat) < of_nat (map_max_size t)"
    using False by (simp add: field_simps)
  then show ?thesis
    using False by (simp add: load_factor_def max_load_factor_def bucket_count_def)
qed

lemma load_factor_le_iff:
  "load_factor t \<le> max_load_factor \<longleftrightarrow> map_max_size t \<noteq> 0 \<and> map_size t \<le> map_max_size t"
proof (cases "map_max_size t = 0")
  case True
  then show ?thesis by (simp add: load_factor_def max_load_factor_def)
next
  case False
  have "(of_nat (map_size t) :: rat) / of_nat (map_max_size t * 2) \<le> 1 / 2
          \<longleftrightarrow> (of_nat (map_size t) :: rat) \<le> of_nat (map_max_size t)"
    using False by (simp add: field_simps)
  then show ?thesis
    using False by (simp add: load_factor_def max_load_factor_def bucket_count_def)
qed

lemma consistent_HashMap: "consistent (HashMap n)"
  by (simp add: consistent_def HashMap_def live_count_def)

lemma install_consistent:
  assumes "consistent t" and "install cfg e t = returns (t', i, b)"
  shows "consistent t' \<and> map_max_size t' = map_max_size t
           \<and> map_size t' = map_size t + (if b then 1 else 0)"
proof -
  from assms(2) obtain j where j: "find_index cfg (key_of cfg e) True t = returns j"
    and res: "(if hash_map t ! j = None \<or> deleted t ! j
               then returns (update_after_insert j (t\<lparr>hash_map := (hash_map t)[j := Some e]\<rparr>),
                             j, True)
               else returns (t, j, False)) = returns (t', i, b)"
    by (auto simp: install_def and_then_eq_returns)
  from find_index_insert_result [OF j]
  have jl: "j < length (hash_map t)" "j < length (deleted t)" by simp_all
  show ?thesis
  proof (cases "hash_map t ! j = None \<or> deleted t ! j")
    case False
    with res assms(1) show ?thesis by simp
  next
    case True
    with res have t': "t' = update_after_insert j (t\<lparr>hash_map := (hash_map t)[j := Some e]\<rparr>)"
      and b: "b" by auto
    let ?P = "\<lambda>sd :: 'a option \<times> bool. fst sd \<noteq> None \<and> \<not> snd sd"
    have z: "zip ((hash_map t)[j := Some e]) ((deleted t)[j := False])
               = (zip (hash_map t) (deleted t))[j := (Some e, False)]"
      by (simp add: update_zip)
    have "\<not> ?P (zip (hash_map t) (deleted t) ! j)"
      using True jl by auto
    moreover have "j < length (zip (hash_map t) (deleted t))" using jl by simp
    ultimately have "length (filter ?P ((zip (hash_map t) (deleted t))[j := (Some e, False)]))
                       = length (filter ?P (zip (hash_map t) (deleted t))) + 1"
      using length_filter_update [of j "zip (hash_map t) (deleted t)" ?P "(Some e, False)"]
      by (auto split: if_splits)
    then have "live_count t' = live_count t + 1"
      by (simp add: live_count_def t' update_after_insert_def z)
    with assms(1) show ?thesis
      by (simp add: consistent_def t' b update_after_insert_def)
  qed
qed

lemma emplace_below:
  "load_factor t < max_load_factor \<Longrightarrow> emplace cfg e t = install cfg e t"
  by (simp add: emplace_eq check_fullness_below)

text \<open>
  The loop of \<open>rehash\<close> on a table with room for every entry that is still to come:
  no nested rehash starts, and the count stays below the bound.
\<close>

lemma rehash_loop_consistent:
  assumes "consistent t"
    and "map_size t + length (filter (\<lambda>sd. fst sd \<noteq> None \<and> \<not> snd sd) zs) \<le> B"
    and "B < map_max_size t"
    and "rehash_loop (re_emplace cfg) zs t = returns t'"
  shows "consistent t' \<and> map_max_size t' = map_max_size t \<and> map_size t' \<le> B"
  using assms
proof (induction zs arbitrary: t)
  case Nil
  then show ?case by simp
next
  case (Cons z zs)
  obtain s d where z: "z = (s, d)" by (cases z)
  show ?case
  proof (cases "s \<noteq> None \<and> \<not> d")
    case False
    with Cons.prems z have "rehash_loop (re_emplace cfg) zs t = returns t'"
      and "map_size t + length (filter (\<lambda>sd. fst sd \<noteq> None \<and> \<not> snd sd) zs) \<le> B"
      by (auto split: option.splits)
    with Cons.IH [of t] Cons.prems show ?thesis by simp
  next
    case True
    then obtain e where s: "s = Some e" and d: "\<not> d" by auto
    from Cons.prems(2) z True
    have bound: "map_size t + 1 + length (filter (\<lambda>sd. fst sd \<noteq> None \<and> \<not> snd sd) zs) \<le> B"
      by simp
    with Cons.prems(3) have "map_size t < map_max_size t" by simp
    then have "load_factor t < max_load_factor" by (simp add: load_factor_less_iff)
    then have em: "emplace cfg e t = install cfg e t" by (rule emplace_below)
    from Cons.prems(4) z s d obtain t1 where
      t1: "re_emplace cfg e t = returns t1"
      and rest: "rehash_loop (re_emplace cfg) zs t1 = returns t'"
      by (auto simp: and_then_eq_returns)
    from t1 em obtain i b where "install cfg e t = returns (t1, i, b)"
      by (auto simp: re_emplace_def and_then_eq_returns)
    from install_consistent [OF Cons.prems(1) this]
    have c1: "consistent t1" and m1: "map_max_size t1 = map_max_size t"
      and s1: "map_size t1 \<le> map_size t + 1" by simp_all
    have "map_size t1 + length (filter (\<lambda>sd. fst sd \<noteq> None \<and> \<not> snd sd) zs) \<le> B"
      using bound s1 by simp
    from Cons.IH [OF c1 this _ rest] Cons.prems(3) m1 show ?thesis by simp
  qed
qed

lemma live_count_le: "live_count t \<le> length (hash_map t)"
proof -
  have "live_count t \<le> length (zip (hash_map t) (deleted t))"
    unfolding live_count_def by (rule length_filter_le)
  then show ?thesis by simp
qed

lemma rehash_consistent:
  assumes "consistent t" and "rehash cfg (map_max_size t * 2) t = returns t1"
  shows "consistent t1 \<and> load_factor t1 < max_load_factor
           \<and> map_max_size t < map_max_size t1 \<and> map_size t1 \<le> map_size t"
proof -
  define n where "n = (if map_max_size t * 2 = 0 \<and> hash_map t = [] then 2
             else if map_max_size t * 2 < map_size t * 2 then map_size t * 2 + 2
             else map_max_size t * 2 + 1)"
  have loop: "rehash_loop (re_emplace cfg) (zip (hash_map t) (deleted t)) (HashMap n) = returns t1"
    using assms(2) by (simp add: rehash_def rehash_with_def n_def)
  have le: "map_size t \<le> map_max_size t * 2"
    using assms(1) live_count_le [of t] by (simp add: consistent_def)
  have n: "map_size t < n" "map_max_size t < n"
    using le by (auto simp: n_def)
  have "map_size (HashMap n :: 'a table)
          + length (filter (\<lambda>sd. fst sd \<noteq> None \<and> \<not> snd sd) (zip (hash_map t) (deleted t)))
          \<le> map_size t"
    using assms(1) by (simp add: HashMap_def consistent_def live_count_def)
  from rehash_loop_consistent [OF consistent_HashMap this _ loop] n
  have "consistent t1" "map_max_size t1 = n" "map_size t1 \<le> map_size t"
    by (simp_all add: HashMap_def)
  with n show ?thesis by (simp add: load_factor_less_iff)
qed

lemma check_fullness_consistent:
  assumes "consistent t" and "check_fullness cfg t = returns t1"
  shows "consistent t1 \<and> load_factor t1 < max_load_factor"
proof (cases "load_factor t < max_load_factor")
  case True
  with assms show ?thesis by (simp add: check_fullness_below)
next
  case False
  then have "max_load_factor \<le> load_factor t" by simp
  with assms(2) have "rehash cfg (map_max_size t * 2) t = returns t1"
    by (simp add: check_fullness_reached)
  from rehash_consistent [OF assms(1) this] show ?thesis by simp
qed

lemma emplace_consistent:
  assumes "consistent t" and "emplace cfg e t = returns (t', i, b)"
  shows "consistent t' \<and> load_factor t' \<le> max_load_factor"
proof -
  from assms(2) obtain t1 where t1: "check_fullness cfg t = returns t1"
    and ins: "install cfg e t1 = returns (t', i, b)"
    by (auto simp: emplace_eq and_then_eq_returns)
  from check_fullness_consistent [OF assms(1) t1]
  have c1: "consistent t1" and l1: "load_factor t1 < max_load_factor" by simp_all
  from install_consistent [OF c1 ins] l1 show ?thesis
    by (auto simp: load_factor_less_iff load_factor_le_iff)
qed

lemma unat_of_nat64: "n < 2 ^ 64 \<Longrightarrow> unat (of_nat n :: 64 word) = n"
  by (simp add: unat_of_nat)

lemma linear_advance:
  assumes "n < 2 ^ 64" and "c < n"
  shows "advance (LinearProbing (of_nat c) (of_nat n))
           = Inr (LinearProbing (of_nat ((c + 1) mod n)) (of_nat n))"
    and "unat (of_nat ((c + 1) mod n) :: 64 word) = (c + 1) mod n"
proof -
  have n0: "(of_nat n :: 64 word) \<noteq> 0"
    using assms by (metis unat_of_nat64 unat_0 less_nat_zero_code)
  have c1: "c + 1 < 2 ^ 64" using assms by simp
  have "unat ((of_nat c + 1 :: 64 word) mod of_nat n) = (c + 1) mod n"
  proof -
    have "(of_nat c + 1 :: 64 word) = of_nat (c + 1)" by simp
    then have "unat (of_nat c + 1 :: 64 word) = c + 1"
      using c1 by (simp only: unat_of_nat64)
    then show ?thesis
      using assms(1) by (simp add: unat_mod_distrib unat_of_nat64)
  qed
  moreover have m: "(c + 1) mod n < 2 ^ 64"
  proof -
    have "(c + 1) mod n < n" using assms(2) by simp
    with assms(1) show ?thesis by simp
  qed
  ultimately have "unat ((of_nat c + 1 :: 64 word) mod of_nat n)
                     = unat (of_nat ((c + 1) mod n) :: 64 word)"
    by (simp add: unat_of_nat64)
  then have "(of_nat c + 1 :: 64 word) mod of_nat n = of_nat ((c + 1) mod n)"
    by (simp only: word_unat_eq_iff)
  with n0 show "advance (LinearProbing (of_nat c) (of_nat n))
           = Inr (LinearProbing (of_nat ((c + 1) mod n)) (of_nat n))"
    by simp
  from m show "unat (of_nat ((c + 1) mod n) :: 64 word) = (c + 1) mod n"
    by (rule unat_of_nat64)
qed

lemma linear_probe_returns:
  assumes "length hm = n" and "length del = n" and "n < 2 ^ 64" and "j < n"
    and stop: "case hm ! j of None \<Rightarrow> True
               | Some e \<Rightarrow> \<not> ((\<not> del ! j \<or> \<not> ins) \<and> kf e \<noteq> key)"
    and "c < n"
  shows "\<exists>i. probe_loop kf hm del key ins (LinearProbing (of_nat c) (of_nat n)) c = returns i"
  using \<open>c < n\<close>
proof (induction "if c \<le> j then j - c else j + n - c" arbitrary: c rule: less_induct)
  case less
  show ?case
  proof (cases "case hm ! c of None \<Rightarrow> True
               | Some e \<Rightarrow> \<not> ((\<not> del ! c \<or> \<not> ins) \<and> kf e \<noteq> key)")
    case True
    then have "probe_loop kf hm del key ins (LinearProbing (of_nat c) (of_nat n)) c = returns c"
      using less.prems assms(1,2)
      by (subst probe_loop.simps) (auto split: option.splits)
    then show ?thesis by blast
  next
    case False
    with stop have cj: "c \<noteq> j" by auto
    let ?c' = "(c + 1) mod n"
    have c': "?c' < n" using less.prems by simp
    have dec: "(if ?c' \<le> j then j - ?c' else j + n - ?c') < (if c \<le> j then j - c else j + n - c)"
    proof (cases "c + 1 = n")
      case True
      then have "?c' = 0" by simp
      with True cj \<open>j < n\<close> show ?thesis by auto
    next
      case False
      with less.prems have "?c' = c + 1" by simp
      with cj \<open>j < n\<close> less.prems show ?thesis by auto
    qed
    from less.hyps [OF dec c'] obtain i where
      i: "probe_loop kf hm del key ins (LinearProbing (of_nat ?c') (of_nat n)) ?c' = returns i"
      by blast
    from False obtain e where e: "hm ! c = Some e" "(\<not> del ! c \<or> \<not> ins) \<and> kf e \<noteq> key"
      by (auto split: option.splits)
    have "probe_loop kf hm del key ins (LinearProbing (of_nat c) (of_nat n)) c = returns i"
      using less.prems assms(1,2) e i linear_advance [OF assms(3) less.prems]
      by (subst probe_loop.simps) simp
    then show ?thesis by blast
  qed
qed

lemma filter_short_ex:
  assumes "length (filter P xs) < length xs"
  shows "\<exists>j<length xs. \<not> P (xs ! j)"
proof (rule ccontr)
  assume "\<not> (\<exists>j<length xs. \<not> P (xs ! j))"
  then have "\<forall>x\<in>set xs. P x" by (auto simp: in_set_conv_nth)
  then have "filter P xs = xs" by simp
  with assms show False by simp
qed

lemma install_returns:
  assumes "consistent t" and "map_size t < map_max_size t"
    and "policy cfg = LinearProbing" and "bucket_count t < 2 ^ 64"
  shows "\<exists>t' i b. install cfg e t = returns (t', i, b)"
proof -
  let ?n = "length (hash_map t)"
  have len: "length (hash_map t) = ?n" "length (deleted t) = ?n" "?n = map_max_size t * 2"
    using assms(1) by (simp_all add: consistent_def)
  have n: "?n < 2 ^ 64" "0 < ?n" "hash_map t \<noteq> []"
    using assms(2,4) len by (auto simp: bucket_count_def)
  have "live_count t < length (zip (hash_map t) (deleted t))"
    using assms(1,2) len by (simp add: consistent_def)
  then obtain j where j: "j < length (zip (hash_map t) (deleted t))"
    and nl: "\<not> (fst (zip (hash_map t) (deleted t) ! j) \<noteq> None
               \<and> \<not> snd (zip (hash_map t) (deleted t) ! j))"
    unfolding live_count_def by (blast dest: filter_short_ex)
  from j len have jn: "j < ?n" by simp
  from nl j have "hash_map t ! j = None \<or> deleted t ! j" by simp
  then have stop: "case hash_map t ! j of None \<Rightarrow> True
               | Some x \<Rightarrow> \<not> ((\<not> deleted t ! j \<or> \<not> True) \<and> key_of cfg x \<noteq> key_of cfg e)"
    by (auto split: option.splits)
  have "hasher cfg (key_of cfg e) mod ?n < ?n" using n by simp
  from linear_probe_returns [OF len(1,2) n(1) jn stop this]
  obtain i where "probe_loop (key_of cfg) (hash_map t) (deleted t) (key_of cfg e) True
      (LinearProbing (of_nat (hasher cfg (key_of cfg e) mod ?n)) (of_nat ?n))
      (hasher cfg (key_of cfg e) mod ?n) = returns i" by blast
  then have "find_index cfg (key_of cfg e) True t = returns i"
    using n assms(3) by (simp add: find_index_def Let_def)
  then show ?thesis by (auto simp: install_def)
qed

lemma rehash_loop_returns:
  assumes "consistent t"
    and "map_size t + length (filter (\<lambda>sd. fst sd \<noteq> None \<and> \<not> snd sd) zs) \<le> B"
    and "B < map_max_size t"
    and "policy cfg = LinearProbing" and "bucket_count t < 2 ^ 64"
  shows "\<exists>t'. rehash_loop (re_emplace cfg) zs t = returns t'"
  using assms(1,2,3,5)
proof (induction zs arbitrary: t)
  case Nil
  then show ?case by simp
next
  case (Cons z zs)
  obtain s d where z: "z = (s, d)" by (cases z)
  show ?case
  proof (cases "s \<noteq> None \<and> \<not> d")
    case False
    with Cons.prems z
    have "map_size t + length (filter (\<lambda>sd. fst sd \<noteq> None \<and> \<not> snd sd) zs) \<le> B"
      by auto
    from Cons.IH [OF Cons.prems(1) this Cons.prems(3,4)] False z show ?thesis
      by (auto split: option.splits)
  next
    case True
    then obtain e where s: "s = Some e" and d: "\<not> d" by auto
    from Cons.prems(2) z True
    have bound: "map_size t + 1 + length (filter (\<lambda>sd. fst sd \<noteq> None \<and> \<not> snd sd) zs) \<le> B"
      by simp
    with Cons.prems(3) have lt: "map_size t < map_max_size t" by simp
    then have "load_factor t < max_load_factor" by (simp add: load_factor_less_iff)
    then have em: "emplace cfg e t = install cfg e t" by (rule emplace_below)
    from install_returns [OF Cons.prems(1) lt assms(4) Cons.prems(4)]
    obtain t1 i b where ins: "install cfg e t = returns (t1, i, b)" by blast
    from install_consistent [OF Cons.prems(1) ins]
    have c1: "consistent t1" and m1: "map_max_size t1 = map_max_size t"
      and s1: "map_size t1 \<le> map_size t + 1" by simp_all
    have b1: "map_size t1 + length (filter (\<lambda>sd. fst sd \<noteq> None \<and> \<not> snd sd) zs) \<le> B"
      using bound s1 by simp
    have "B < map_max_size t1" "bucket_count t1 < 2 ^ 64"
      using Cons.prems(3,4) m1 by (simp_all add: bucket_count_def)
    from Cons.IH [OF c1 b1 this] obtain t' where
      "rehash_loop (re_emplace cfg) zs t1 = returns t'" by blast
    moreover have "re_emplace cfg e t = returns t1"
      by (simp add: re_emplace_def em ins)
    ultimately show ?thesis
      using z s d by simp
  qed
qed

lemma rehash_returns:
  assumes "consistent t" and "policy cfg = LinearProbing" and "bucket_count t < 2 ^ 61"
  shows "\<exists>t1. rehash cfg (map_max_size t * 2) t = returns t1"
proof -
  define n where "n = (if map_max_size t * 2 = 0 \<and> hash_map t = [] then 2
             else if map_max_size t * 2 < map_size t * 2 then map_size t * 2 + 2
             else map_max_size t * 2 + 1)"
  have le: "map_size t \<le> map_max_size t * 2"
    using assms(1) live_count_le [of t] by (simp add: consistent_def)
  have n: "map_size t < n" "n \<le> map_max_size t * 4 + 2"
    using le by (auto simp: n_def)
  have "map_max_size t * 2 < 2 ^ 61" using assms(3) by (simp add: bucket_count_def)
  with n(2) have big: "bucket_count (HashMap n :: 'a table) < 2 ^ 64"
    by (simp add: bucket_count_def HashMap_def)
  have "map_size (HashMap n :: 'a table)
          + length (filter (\<lambda>sd. fst sd \<noteq> None \<and> \<not> snd sd) (zip (hash_map t) (deleted t)))
          \<le> map_size t"
    using assms(1) by (simp add: HashMap_def consistent_def live_count_def)
  moreover have "map_size t < map_max_size (HashMap n :: 'a table)"
    using n(1) by (simp add: HashMap_def)
  ultimately obtain t1 where
    "rehash_loop (re_emplace cfg) (zip (hash_map t) (deleted t)) (HashMap n) = returns t1"
    using rehash_loop_returns [OF consistent_HashMap _ _ assms(2) big] by blast
  then show ?thesis by (auto simp: rehash_def rehash_with_def n_def)
qed

lemma emplace_returns:
  assumes "consistent t" and "policy cfg = LinearProbing" and "bucket_count t < 2 ^ 61"
  shows "\<exists>t1 t' i b.
           check_fullness cfg t = returns t1
         \<and> (if max_load_factor \<le> load_factor t
             then rehash cfg (map_max_size t * 2) t = returns t1
                  \<and> bucket_count t < bucket_count t1
             else t1 = t)
         \<and> load_factor t1 < max_load_factor
         \<and> install cfg e t1 = returns (t', i, b)
         \<and> emplace cfg e t = returns (t', i, b)
         \<and> load_factor t' \<le> max_load_factor"
proof -
  obtain t1 where t1: "check_fullness cfg t = returns t1"
    and how: "if max_load_factor \<le> load_factor t
              then rehash cfg (map_max_size t * 2) t = returns t1
                   \<and> bucket_count t < bucket_count t1
              else t1 = t"
    and small: "bucket_count t1 < 2 ^ 64"
  proof (cases "max_load_factor \<le> load_factor t")
    case True
    from rehash_returns [OF assms] obtain t1 where
      r: "rehash cfg (map_max_size t * 2) t = returns t1" by blast
    from rehash_consistent [OF assms(1) r]
    have c1: "consistent t1" and g: "map_max_size t < map_max_size t1"
      and s1: "map_size t1 \<le> map_size t" and l1: "load_factor t1 < max_load_factor"
      by simp_all
    have "map_size t \<le> map_max_size t * 2"
      using assms(1) live_count_le [of t] by (simp add: consistent_def)
    have m1: "map_max_size t1 \<le> map_max_size t * 4 + 2"
    proof -
      from r obtain n where
        "rehash_loop (re_emplace cfg) (zip (hash_map t) (deleted t)) (HashMap n) = returns t1"
        and n: "n \<le> map_max_size t * 4 + 2" "map_size t < n"
        using \<open>map_size t \<le> map_max_size t * 2\<close>
        by (auto simp: rehash_def rehash_with_def split: if_splits)
      moreover have "map_size (HashMap n :: 'a table)
          + length (filter (\<lambda>sd. fst sd \<noteq> None \<and> \<not> snd sd) (zip (hash_map t) (deleted t)))
          \<le> map_size t"
        using assms(1) by (simp add: HashMap_def consistent_def live_count_def)
      ultimately have "map_max_size t1 = n"
        using rehash_loop_consistent [OF consistent_HashMap, of n _ "map_size t" cfg t1]
        by (simp add: HashMap_def)
      with n show ?thesis by simp
    qed
    have "map_max_size t * 2 < 2 ^ 61" using assms(3) by (simp add: bucket_count_def)
    with m1 have "bucket_count t1 < 2 ^ 64" by (simp add: bucket_count_def)
    moreover have "check_fullness cfg t = returns t1"
      using True r by (simp add: check_fullness_reached)
    moreover have "bucket_count t < bucket_count t1"
      using g by (simp add: bucket_count_def)
    ultimately show ?thesis using that True r by simp
  next
    case False
    then have "check_fullness cfg t = returns t" by (simp add: check_fullness_below)
    moreover have "bucket_count t < 2 ^ 64"
    proof -
      have "(2::nat) ^ 61 < 2 ^ 64" by simp
      with assms(3) show ?thesis by (rule less_trans)
    qed
    ultimately show ?thesis using that False by simp
  qed
  from check_fullness_consistent [OF assms(1) t1]
  have c1: "consistent t1" and l1: "load_factor t1 < max_load_factor" by simp_all
  from l1 have "map_size t1 < map_max_size t1" by (simp add: load_factor_less_iff)
  from install_returns [OF c1 this assms(2) small]
  obtain t' i b where ins: "install cfg e t1 = returns (t', i, b)" by blast
  have em: "emplace cfg e t = returns (t', i, b)"
    by (simp add: emplace_eq t1 ins)
  from emplace_consistent [OF assms(1) em] have "load_factor t' \<le> max_load_factor" by simp
  with t1 how l1 ins em show ?thesis by blast
qed

lemma find_index_lookup_result:
  assumes "find_index cfg k False t = returns i" and "i \<noteq> map_max_size t * 2"
  shows "i < length (hash_map t) \<and> i < length (deleted t)
           \<and> hash_map t ! i \<noteq> None \<and> \<not> deleted t ! i"
  using assms
  by (auto simp: find_index_def Let_def and_then_eq_returns
      split: if_splits option.splits dest: probe_loop_result)

lemma erase_key_consistent:
  assumes "consistent t" and "erase_key cfg k t = returns (t', c)"
  shows "consistent t'"
proof -
  from assms(2) obtain i where i: "find_index cfg k False t = returns i"
    and res: "(if i \<noteq> map_max_size t * 2
               then and_then (erase i t) (\<lambda>r. returns (fst r, 1))
               else returns (t, 0)) = returns (t', c)"
    by (auto simp: erase_key_def find_def and_then_eq_returns)
  show ?thesis
  proof (cases "i = map_max_size t * 2")
    case True
    with res assms(1) show ?thesis by simp
  next
    case False
    from find_index_lookup_result [OF i False]
    have il: "i < length (hash_map t)" "i < length (deleted t)"
      and lv: "hash_map t ! i \<noteq> None" "\<not> deleted t ! i" by simp_all
    let ?P = "\<lambda>sd :: 'a option \<times> bool. fst sd \<noteq> None \<and> \<not> snd sd"
    let ?zs = "zip (hash_map t) (deleted t)"
    have z: "zip (hash_map t) ((deleted t)[i := True]) = ?zs[i := (hash_map t ! i, True)]"
      using il by (simp add: update_zip)
    have iz: "i < length ?zs" using il by simp
    have "?P (?zs ! i)" using il lv by simp
    then have cnt: "length (filter ?P (?zs[i := (hash_map t ! i, True)])) + 1
                      = length (filter ?P ?zs)"
      using length_filter_update [OF iz, of ?P "(hash_map t ! i, True)"] by simp
    have pos: "map_size t \<noteq> 0"
    proof -
      from cnt have "0 < length (filter ?P ?zs)" by linarith
      with assms(1) show ?thesis by (simp add: consistent_def live_count_def)
    qed
    from res False il lv pos
    have t': "hash_map t' = hash_map t" "deleted t' = (deleted t)[i := True]"
      "map_size t' = map_size t - 1" "map_max_size t' = map_max_size t"
      by (auto simp: erase_def Let_def and_then_eq_returns split: if_splits)
    have "live_count t' + 1 = live_count t"
      using cnt by (simp add: live_count_def t' z)
    with assms(1) pos show ?thesis
      by (simp add: consistent_def t')
  qed
qed

text \<open>Every table that a client reaches from a constructed one is consistent.\<close>

lemma run_consistent:
  assumes "consistent t" and "run cfg cs t = returns t'"
  shows "consistent t'"
  using assms
proof (induction cs arbitrary: t)
  case Nil
  then show ?case by simp
next
  case (Cons c cs)
  from Cons.prems(2) obtain t1 where t1: "apply_call cfg c t = returns t1"
    and rest: "run cfg cs t1 = returns t'"
    by (auto simp: and_then_eq_returns)
  have "consistent t1"
  proof (cases c)
    case (Insert e)
    with t1 obtain i b where "emplace cfg e t = returns (t1, i, b)"
      by (auto simp: and_then_eq_returns)
    from emplace_consistent [OF Cons.prems(1) this] show ?thesis by simp
  next
    case (Erase k)
    with t1 obtain n where "erase_key cfg k t = returns (t1, n)"
      by (auto simp: and_then_eq_returns)
    from erase_key_consistent [OF Cons.prems(1) this] show ?thesis .
  qed
  from Cons.IH [OF this rest] show ?case .
qed





section \<open>Walks of linear probing, step by step\<close>

lemma probe_stop:
  assumes "c < length hm" and "c < length del"
    and "case hm ! c of None \<Rightarrow> True
         | Some e \<Rightarrow> \<not> ((\<not> del ! c \<or> \<not> ins) \<and> kf e \<noteq> key)"
  shows "probe_loop kf hm del key ins p c = returns c"
  using assms by (subst probe_loop.simps) (auto split: option.splits)

lemma probe_step_linear:
  assumes "length hm = n" and "length del = n" and "n < 2 ^ 64" and "c < n"
    and "hm ! c = Some e" and "\<not> del ! c \<or> \<not> ins" and "kf e \<noteq> key"
  shows "probe_loop kf hm del key ins (LinearProbing (of_nat c) (of_nat n)) c
         = probe_loop kf hm del key ins
             (LinearProbing (of_nat ((c + 1) mod n)) (of_nat n)) ((c + 1) mod n)"
  using assms linear_advance [OF assms(3,4)]
  by (subst probe_loop.simps) simp

lemma emplace_default:
  "emplace cfg e (HashMap 0) = emplace cfg e (HashMap 2)"
proof -
  have "check_fullness cfg (HashMap 0 :: 'a table) = returns (HashMap 2)"
    by (simp add: check_fullness_reached load_factor_def max_load_factor_def HashMap_def
          rehash_def rehash_with_def)
  moreover have "check_fullness cfg (HashMap 2 :: 'a table) = returns (HashMap 2)"
    by (simp add: check_fullness_below load_factor_def max_load_factor_def HashMap_def
          bucket_count_def)
  ultimately show ?thesis by (simp add: emplace_eq)
qed


lemma tombstone_reuse:
  fixes cfg :: "('e, 'k) traits" and n s :: nat and ea eb ec :: 'e
  assumes lin: "policy cfg = LinearProbing"
    and n: "2 \<le> n" "n * 2 < 2 ^ 64"
    and ab: "key_of cfg ea \<noteq> key_of cfg eb"
    and ac: "key_of cfg ea \<noteq> key_of cfg ec"
    and bc: "key_of cfg eb \<noteq> key_of cfg ec"
    and ha: "hasher cfg (key_of cfg ea) mod (n * 2) = s"
    and hb: "hasher cfg (key_of cfg eb) mod (n * 2) = s"
    and hc: "hasher cfg (key_of cfg ec) mod (n * 2) = s"
  shows "\<exists>t2 t3 t4.
      run cfg [Insert ea, Insert eb] (HashMap n) = returns t2
    \<and> hash_map t2 ! s = Some ea \<and> live t2 s
    \<and> hash_map t2 ! ((s + 1) mod (n * 2)) = Some eb \<and> live t2 ((s + 1) mod (n * 2))
    \<and> erase_key cfg (key_of cfg ea) t2 = returns (t3, 1)
    \<and> hash_map t3 ! s = Some ea \<and> deleted t3 ! s
    \<and> emplace cfg ec t3 = returns (t4, s, True)
    \<and> hash_map t4 ! s = Some ec \<and> live t4 s
    \<and> find cfg (key_of cfg ea) t4 = returns (map_max_size t4 * 2)
    \<and> find cfg (key_of cfg eb) t4 = returns ((s + 1) mod (n * 2))
    \<and> find cfg (key_of cfg ec) t4 = returns s"
proof -
  define N where "N = n * 2"
  define s1 where "s1 = (s + 1) mod N"
  define s2 where "s2 = (s1 + 1) mod N"
  define hm0 :: "'e option list" where "hm0 = replicate N None"
  define del0 where "del0 = replicate N True"
  have N: "4 \<le> N" "N < 2 ^ 64" using n by (simp_all add: N_def)
  have sN: "s < N" using ha N by (auto simp: N_def)
  have s1N: "s1 < N" and s2N: "s2 < N" using N by (simp_all add: s1_def s2_def)
  have s1s: "s1 \<noteq> s"
    using sN N unfolding s1_def by (cases "s + 1 = N") auto
  have s2s1: "s2 \<noteq> s1"
    using s1N N unfolding s2_def by (cases "s1 + 1 = N") auto
  have s2s: "s2 \<noteq> s"
  proof (cases "s + 1 = N")
    case True
    then have "s1 = 0" by (simp add: s1_def)
    then have "s2 = 1" using N by (simp add: s2_def)
    with True N show ?thesis by simp
  next
    case False
    with sN have a: "s1 = s + 1" by (simp add: s1_def)
    show ?thesis
    proof (cases "s + 2 = N")
      case True
      with a have "s2 = 0" by (simp add: s2_def)
      with True N show ?thesis by simp
    next
      case False
      with a sN \<open>s + 1 \<noteq> N\<close> have "s2 = s + 2" by (simp add: s2_def)
      then show ?thesis by simp
    qed
  qed
  have len0: "length hm0 = N" "length del0 = N" by (simp_all add: hm0_def del0_def)
  have nth0: "\<And>i. i < N \<Longrightarrow> hm0 ! i = None" "\<And>i. i < N \<Longrightarrow> del0 ! i"
    by (simp_all add: hm0_def del0_def)
  have ne0: "hm0 \<noteq> []" using len0 N by auto
  note idx = sN s1N s2N s1s s2s1 s2s s1s [symmetric] s2s1 [symmetric] s2s [symmetric]
    len0 nth0 N ne0

  \<comment> \<open>insert a\<close>
  define t1 where "t1 = \<lparr>map_size = 1, map_max_size = n, hash_map = hm0[s := Some ea],
      deleted = del0[s := False], first_ind = s\<rparr>"
  have e1: "emplace cfg ea (HashMap n) = returns (t1, s, True)"
    using emplace_fresh [of n cfg ea] n(1) ha
    by (simp add: t1_def hm0_def del0_def N_def)

  \<comment> \<open>insert b: the walk passes the live a and stops at the empty slot after it\<close>
  define t2 where "t2 = \<lparr>map_size = 2, map_max_size = n,
      hash_map = hm0[s := Some ea, s1 := Some eb],
      deleted = del0[s := False, s1 := False], first_ind = min s s1\<rparr>"
  have l1: "load_factor t1 < max_load_factor"
    using n(1) by (simp add: load_factor_less_iff t1_def)
  have p2: "probe_loop (key_of cfg) (hm0[s := Some ea]) (del0[s := False]) (key_of cfg eb) True
              (LinearProbing (of_nat s) (of_nat N)) s = returns s1"
  proof -
    have "probe_loop (key_of cfg) (hm0[s := Some ea]) (del0[s := False]) (key_of cfg eb) True
              (LinearProbing (of_nat s) (of_nat N)) s
          = probe_loop (key_of cfg) (hm0[s := Some ea]) (del0[s := False]) (key_of cfg eb) True
              (LinearProbing (of_nat s1) (of_nat N)) s1"
      unfolding s1_def
      by (rule probe_step_linear [where e = ea]) (use idx ab in simp_all)
    also have "\<dots> = returns s1"
      by (rule probe_stop) (use idx in simp_all)
    finally show ?thesis .
  qed
  have f2: "find_index cfg (key_of cfg eb) True t1 = returns s1"
    using p2 hb lin idx by (simp add: find_index_def t1_def N_def [symmetric])
  have i2: "install cfg eb t1 = returns (t2, s1, True)"
    using f2 idx by (simp add: install_def t1_def t2_def update_after_insert_def)
  have e2: "emplace cfg eb t1 = returns (t2, s1, True)"
    using l1 i2 by (simp add: emplace_below)
  have r2: "run cfg [Insert ea, Insert eb] (HashMap n) = returns t2"
    by (simp add: e1 e2)

  \<comment> \<open>erase a: its slot becomes a tombstone\<close>
  have p3: "probe_loop (key_of cfg) (hash_map t2) (deleted t2) (key_of cfg ea) False
              (LinearProbing (of_nat s) (of_nat N)) s = returns s"
    by (rule probe_stop) (use idx in \<open>simp_all add: t2_def\<close>)
  have f3: "find cfg (key_of cfg ea) t2 = returns s"
    using p3 ha lin idx
    by (simp add: find_def find_index_def N_def [symmetric]) (simp add: t2_def)
  obtain t3 it where er: "erase s t2 = returns (t3, it)"
    and t3: "hash_map t3 = hash_map t2" "deleted t3 = (deleted t2)[s := True]"
      "map_size t3 = 1" "map_max_size t3 = n"
  proof -
    have "\<exists>t3 it. erase s t2 = returns (t3, it) \<and> hash_map t3 = hash_map t2
            \<and> deleted t3 = (deleted t2)[s := True] \<and> map_size t3 = 1 \<and> map_max_size t3 = n"
      using idx by (simp add: erase_def Let_def t2_def)
    then show ?thesis using that by blast
  qed
  have e3: "erase_key cfg (key_of cfg ea) t2 = returns (t3, 1)"
    using f3 er sN by (simp add: erase_key_def t2_def N_def)

  \<comment> \<open>insert c: the walk stops at the tombstone\<close>
  have l3: "load_factor t3 < max_load_factor"
    using n(1) t3 by (simp add: load_factor_less_iff)
  have hm3: "hash_map t3 = hm0[s := Some ea, s1 := Some eb]"
    and del3: "deleted t3 = del0[s := False, s1 := False, s := True]"
    by (simp_all add: t3 t2_def)
  have p4: "probe_loop (key_of cfg) (hash_map t3) (deleted t3) (key_of cfg ec) True
              (LinearProbing (of_nat s) (of_nat N)) s = returns s"
    by (rule probe_stop) (use idx in \<open>simp_all add: hm3 del3\<close>)
  have f4: "find_index cfg (key_of cfg ec) True t3 = returns s"
    using p4 hc lin idx
    by (simp add: find_index_def N_def [symmetric]) (simp add: hm3)
  define t4 where
    "t4 = update_after_insert s (t3\<lparr>hash_map := (hash_map t3)[s := Some ec]\<rparr>)"
  have i4: "install cfg ec t3 = returns (t4, s, True)"
    using f4 idx by (simp add: install_def t4_def del3)
  have e4: "emplace cfg ec t3 = returns (t4, s, True)"
    using l3 i4 by (simp add: emplace_below)
  have hm4: "hash_map t4 = hm0[s := Some ea, s1 := Some eb, s := Some ec]"
    and del4: "deleted t4 = del0[s := False, s1 := False, s := True, s := False]"
    and max4: "map_max_size t4 = n"
    by (simp_all add: t4_def update_after_insert_def hm3 del3 t3)

  \<comment> \<open>the lookups\<close>
  have q_a: "probe_loop (key_of cfg) (hash_map t4) (deleted t4) (key_of cfg ea) False
              (LinearProbing (of_nat s) (of_nat N)) s = returns s2"
  proof -
    have "probe_loop (key_of cfg) (hash_map t4) (deleted t4) (key_of cfg ea) False
              (LinearProbing (of_nat s) (of_nat N)) s
          = probe_loop (key_of cfg) (hash_map t4) (deleted t4) (key_of cfg ea) False
              (LinearProbing (of_nat s1) (of_nat N)) s1"
      unfolding s1_def
      by (rule probe_step_linear [where e = ec]) (use idx ac in \<open>simp_all add: hm4 del4\<close>)
    also have "\<dots> = probe_loop (key_of cfg) (hash_map t4) (deleted t4) (key_of cfg ea) False
              (LinearProbing (of_nat s2) (of_nat N)) s2"
      unfolding s2_def
      by (rule probe_step_linear [where e = eb]) (use idx ab in \<open>simp_all add: hm4 del4\<close>)
    also have "\<dots> = returns s2"
      by (rule probe_stop) (use idx in \<open>simp_all add: hm4 del4\<close>)
    finally show ?thesis .
  qed
  have find_a: "find cfg (key_of cfg ea) t4 = returns (map_max_size t4 * 2)"
    using q_a ha lin idx
    by (simp add: find_def find_index_def N_def [symmetric] hm4)
  have q_b: "probe_loop (key_of cfg) (hash_map t4) (deleted t4) (key_of cfg eb) False
              (LinearProbing (of_nat s) (of_nat N)) s = returns s1"
  proof -
    have "probe_loop (key_of cfg) (hash_map t4) (deleted t4) (key_of cfg eb) False
              (LinearProbing (of_nat s) (of_nat N)) s
          = probe_loop (key_of cfg) (hash_map t4) (deleted t4) (key_of cfg eb) False
              (LinearProbing (of_nat s1) (of_nat N)) s1"
      unfolding s1_def
      by (rule probe_step_linear [where e = ec]) (use idx bc in \<open>simp_all add: hm4 del4\<close>)
    also have "\<dots> = returns s1"
      by (rule probe_stop) (use idx in \<open>simp_all add: hm4 del4\<close>)
    finally show ?thesis .
  qed
  have find_b: "find cfg (key_of cfg eb) t4 = returns s1"
    using q_b hb lin idx
    by (simp add: find_def find_index_def N_def [symmetric] hm4 del4)
  have q_c: "probe_loop (key_of cfg) (hash_map t4) (deleted t4) (key_of cfg ec) False
              (LinearProbing (of_nat s) (of_nat N)) s = returns s"
    by (rule probe_stop) (use idx in \<open>simp_all add: hm4 del4\<close>)
  have find_c: "find cfg (key_of cfg ec) t4 = returns s"
    using q_c hc lin idx
    by (simp add: find_def find_index_def N_def [symmetric] hm4 del4)

  have a2: "hash_map t2 ! s = Some ea" "live t2 s" "hash_map t2 ! s1 = Some eb" "live t2 s1"
    using idx by (simp_all add: t2_def live_def)
  have a3: "hash_map t3 ! s = Some ea" "deleted t3 ! s"
    using idx by (simp_all add: hm3 del3)
  have a4: "hash_map t4 ! s = Some ec" "live t4 s"
    using idx by (simp_all add: hm4 del4 live_def)
  show ?thesis
    apply (rule exI [of _ t2])
    apply (rule exI [of _ t3])
    apply (rule exI [of _ t4])
    unfolding N_def [symmetric] s1_def [symmetric]
    apply (intro conjI)
                apply (rule r2)
               apply (rule a2(1))
              apply (rule a2(2))
             apply (rule a2(3))
            apply (rule a2(4))
           apply (rule e3)
          apply (rule a3(1))
         apply (rule a3(2))
        apply (rule e4)
       apply (rule a4(1))
      apply (rule a4(2))
     apply (rule find_a)
    apply (rule find_b)
    apply (rule find_c)
    done
qed

text \<open>
  On a table as its constructor leaves it, with any expected size \<open>n\<close> other than 1 and
  physical length \<open>N\<close> once the first entry is in, the scenario of three colliding keys
  runs as follows: \<open>b\<close> lands in the slot after \<open>a\<close>, \<open>c\<close> takes the tombstone of \<open>a\<close>,
  the lookup of \<open>a\<close> returns \<open>end()\<close>, and \<open>b\<close> and \<open>c\<close> are found.
\<close>

lemma tombstone_reuse_constructed:
  fixes cfg :: "('e, 'k) traits" and n N s :: nat and ea eb ec :: 'e
  assumes "policy cfg = LinearProbing"
    and "n = 0 \<or> 2 \<le> n" and "n * 2 < 2 ^ 64"
    and "N = (if n = 0 then 4 else n * 2)"
    and "key_of cfg ea \<noteq> key_of cfg eb"
    and "key_of cfg ea \<noteq> key_of cfg ec"
    and "key_of cfg eb \<noteq> key_of cfg ec"
    and "hasher cfg (key_of cfg ea) mod N = s"
    and "hasher cfg (key_of cfg eb) mod N = s"
    and "hasher cfg (key_of cfg ec) mod N = s"
  shows "\<exists>t2 t3 t4.
      run cfg [Insert ea, Insert eb] (HashMap n) = returns t2
    \<and> hash_map t2 ! s = Some ea \<and> live t2 s
    \<and> hash_map t2 ! ((s + 1) mod N) = Some eb \<and> live t2 ((s + 1) mod N)
    \<and> erase_key cfg (key_of cfg ea) t2 = returns (t3, 1)
    \<and> hash_map t3 ! s = Some ea \<and> deleted t3 ! s
    \<and> emplace cfg ec t3 = returns (t4, s, True)
    \<and> hash_map t4 ! s = Some ec \<and> live t4 s
    \<and> find cfg (key_of cfg ea) t4 = returns (map_max_size t4 * 2)
    \<and> find cfg (key_of cfg eb) t4 = returns ((s + 1) mod N)
    \<and> find cfg (key_of cfg ec) t4 = returns s"
proof (cases "n = 0")
  case False
  with assms(2,4) have "2 \<le> n" and N: "N = n * 2" by simp_all
  from tombstone_reuse [OF assms(1) this(1) assms(3) assms(5-7) assms(8-10) [unfolded N]]
  show ?thesis unfolding N .
next
  case True
  with assms(4) have N: "N = 2 * 2" by simp
  have "run cfg [Insert ea, Insert eb] (HashMap n) = run cfg [Insert ea, Insert eb] (HashMap 2)"
    using True by (simp add: emplace_default)
  moreover have "(2::nat) \<le> 2" "(2::nat) * 2 < 2 ^ 64" by simp_all
  from tombstone_reuse [OF assms(1) this assms(5-7) assms(8-10) [unfolded N]]
  have "\<exists>t2 t3 t4.
      run cfg [Insert ea, Insert eb] (HashMap 2) = returns t2
    \<and> hash_map t2 ! s = Some ea \<and> live t2 s
    \<and> hash_map t2 ! ((s + 1) mod N) = Some eb \<and> live t2 ((s + 1) mod N)
    \<and> erase_key cfg (key_of cfg ea) t2 = returns (t3, 1)
    \<and> hash_map t3 ! s = Some ea \<and> deleted t3 ! s
    \<and> emplace cfg ec t3 = returns (t4, s, True)
    \<and> hash_map t4 ! s = Some ec \<and> live t4 s
    \<and> find cfg (key_of cfg ea) t4 = returns (map_max_size t4 * 2)
    \<and> find cfg (key_of cfg eb) t4 = returns ((s + 1) mod N)
    \<and> find cfg (key_of cfg ec) t4 = returns s"
    unfolding N .
  ultimately show ?thesis by (simp only:)
qed


text \<open>
  A map built with \<open>expected_max_size = 2\<close> (four slots) after
  \<open>insert 2, erase 2, insert 3, erase 3, insert 0, insert 4\<close>: slots 2 and 3 are
  tombstones, keys 0 and 4 both start at slot 0, and 4 has landed in slot 1. Then the
  same map after \<open>erase 0, insert 8\<close>; key 8 starts at slot 0 too.
\<close>

definition collided_map :: "(nat \<times> nat) table" where
  "collided_map =
     \<lparr>map_size = 2, map_max_size = 2,
      hash_map = [Some (0, 10), Some (4, 20), Some (2, 1), Some (3, 1)],
      deleted = [False, False, True, True], first_ind = 0\<rparr>"

definition reused_map :: "(nat \<times> nat) table" where
  "reused_map =
     \<lparr>map_size = 2, map_max_size = 2,
      hash_map = [Some (8, 30), Some (4, 20), Some (2, 1), Some (3, 1)],
      deleted = [False, False, True, True], first_ind = 0\<rparr>"

lemma run_collided_map:
  "run identity_map
     [Insert (2, 1), Erase 2, Insert (3, 1), Erase 3, Insert (0, 10), Insert (4, 20)]
     (HashMap 2) = returns collided_map"
  by (simp add: run_simps small_tables identity_map_def collided_map_def)

lemma run_reused_map:
  "run identity_map [Erase 0, Insert (8, 30)] collided_map = returns reused_map"
  by (simp add: run_simps small_tables identity_map_def collided_map_def reused_map_def)

lemma probe_reused_map:
  "probe_loop fst [Some (8::nat, 30::nat), Some (4, 20), Some (2, 1), Some (3, 1)]
     [False, False, True, True] 0 False (LinearProbing 0 4) 0 = None"
  by (rule probe_loop_cycle
        [where S = "\<lambda>p c. (p = LinearProbing 0 4 \<and> c = 0) \<or> (p = LinearProbing 1 4 \<and> c = 1)
                        \<or> (p = LinearProbing 2 4 \<and> c = 2) \<or> (p = LinearProbing 3 4 \<and> c = 3)"])
     auto

lemma find_reused_map: "find identity_map 0 reused_map = None"
  using probe_reused_map
  by (simp add: find_def find_index_def identity_map_def map_traits_def reused_map_def Let_def)

section \<open>The claims\<close>

text \<open>
  C1. Claim: in every table reachable by insertions and erasures, each key occupies at
  most one live slot. The code breaks it: \<open>find_index\<close> for an insertion stops at the first
  tombstone of the walk, before it has seen whether the key is live further on. After
  \<open>insert 0, insert 4, erase 0, insert 4\<close> on a default-constructed map (and set) the
  key 4 is live in slot 0 and in slot 1.
\<close>

theorem C1_key_live_in_two_slots:
  "run identity_map [Insert (0, 10), Insert (4, 20), Erase 0, Insert (4, 30)] (HashMap 0)
     = returns doubled_map
   \<and> slots_of identity_map doubled_map 4 = [0, 1]
   \<and> run identity_set [Insert 0, Insert 4, Erase 0, Insert 4] (HashSet 0) = returns doubled_set
   \<and> slots_of identity_set doubled_set 4 = [0, 1]"
proof -
  have "slots_of identity_map doubled_map 4 = [0, 1]"
    by (simp add: slots_of_def live_slots_def live_def doubled_map_def identity_map_def
          map_traits_def upt_rec)
  moreover have "slots_of identity_set doubled_set 4 = [0, 1]"
    by (simp add: slots_of_def live_slots_def live_def doubled_set_def identity_set_def
          set_traits_def upt_rec)
  ultimately show ?thesis
    by (simp only: run_doubled_map run_doubled_set simp_thms)
qed





text \<open>
  C3. Claim: \<open>find k\<close> returns the entry last installed for a key \<open>k\<close> that was inserted
  and not erased since. The code breaks it through the duplicate live entries of C1.
  In \<open>stale_map\<close> the last calls on key 8 are \<open>erase 8\<close> and then \<open>insert (8,50)\<close>, and
  \<open>find 8\<close> returns the entry \<open>(8,20)\<close> of the first insertion. In \<open>wrapped_map\<close> key 7
  was never erased, its last installed entry is \<open>(7,30)\<close> (the call reported
  \<open>inserted\<close>), and after the growth caused by inserting key 1 \<open>find 7\<close> returns \<open>(7,20)\<close>.
\<close>

theorem C3_find_returns_older_entry:
  "run identity_map
     [Insert (0, 10), Insert (8, 20), Erase 0, Insert (8, 30), Erase 8, Insert (16, 40),
      Insert (8, 50)] (HashMap 4) = returns stale_map
   \<and> find identity_map 8 stale_map = returns 1
   \<and> hash_map stale_map ! 1 = Some (8, 20)
   \<and> run identity_map [Insert (3, 10), Insert (7, 20), Erase 3, Insert (7, 30)] (HashMap 0)
       = returns wrapped_map
   \<and> find identity_map 7 wrapped_map = returns 3
   \<and> hash_map wrapped_map ! 3 = Some (7, 30)
   \<and> emplace identity_map (1, 0) wrapped_map = returns (regrown_map, 1, True)
   \<and> find identity_map 7 regrown_map = returns 7
   \<and> hash_map regrown_map ! 7 = Some (7, 20)"
proof -
  have "find identity_map 8 stale_map = returns 1"
    and "hash_map stale_map ! 1 = Some (8, 20)"
    by (simp_all add: find_def find_index_def probe_loop.simps Let_def identity_map_def
          map_traits_def stale_map_def)
  moreover have "find identity_map 7 wrapped_map = returns 3"
    and "hash_map wrapped_map ! 3 = Some (7, 30)"
    by (simp_all add: find_def find_index_def probe_loop.simps Let_def identity_map_def
          map_traits_def wrapped_map_def)
  moreover have "find identity_map 7 regrown_map = returns 7"
    and "hash_map regrown_map ! 7 = Some (7, 20)"
    by (simp_all add: find_def find_index_def probe_loop.simps Let_def identity_map_def
          map_traits_def regrown_map_def)
  ultimately show ?thesis
    by (simp only: run_stale_map run_wrapped_map emplace_wrapped_map simp_thms)
qed

text \<open>
  C4. Claim: a rehash, explicit or caused by the growth threshold, leaves the live count
  and the set of live keys unchanged and carries no tombstone over. The code breaks the
  first part on a table with the duplicate live entries of C1: \<open>doubled_map\<close> has two
  live slots and \<open>size() = 2\<close>; after \<open>rehash(0)\<close>, and after the rehash that
  \<open>check_fullness\<close> starts, it has one.
\<close>

theorem C4_rehash_changes_live_count:
  "run identity_map [Insert (0, 10), Insert (4, 20), Erase 0, Insert (4, 30)] (HashMap 0)
     = returns doubled_map
   \<and> map_size doubled_map = 2
   \<and> live_slots doubled_map = [0, 1]
   \<and> rehash identity_map 0 doubled_map = returns
       \<lparr>map_size = 1, map_max_size = 6,
        hash_map = [None, None, None, None, Some (4, 30), None, None, None, None, None, None,
                    None],
        deleted = [True, True, True, True, False, True, True, True, True, True, True, True],
        first_ind = 4\<rparr>
   \<and> check_fullness identity_map doubled_map = returns
       \<lparr>map_size = 1, map_max_size = 5,
        hash_map = [None, None, None, None, Some (4, 30), None, None, None, None, None],
        deleted = [True, True, True, True, False, True, True, True, True, True],
        first_ind = 4\<rparr>"
proof -
  have "map_size doubled_map = 2" and "live_slots doubled_map = [0, 1]"
    by (simp_all add: doubled_map_def live_slots_def live_def upt_rec)
  moreover have "rehash identity_map 0 doubled_map = returns
       \<lparr>map_size = 1, map_max_size = 6,
        hash_map = [None, None, None, None, Some (4, 30), None, None, None, None, None, None,
                    None],
        deleted = [True, True, True, True, False, True, True, True, True, True, True, True],
        first_ind = 4\<rparr>"
    by (simp add: run_simps small_tables identity_map_def doubled_map_def)
  moreover have "check_fullness identity_map doubled_map = returns
       \<lparr>map_size = 1, map_max_size = 5,
        hash_map = [None, None, None, None, Some (4, 30), None, None, None, None, None],
        deleted = [True, True, True, True, False, True, True, True, True, True],
        first_ind = 4\<rparr>"
    by (simp add: run_simps small_tables identity_map_def doubled_map_def)
  ultimately show ?thesis
    by (simp only: run_doubled_map simp_thms)
qed

text \<open>
  C5. Claim: when keys \<open>a\<close> and \<open>b\<close> start at the same slot under linear probing (so
  \<open>b\<close> lands in the next slot), then after erasing \<open>a\<close> and inserting a key \<open>c\<close> with
  the same start, \<open>c\<close> sits in the tombstoned slot of \<open>a\<close>, a lookup of \<open>a\<close> reports
  absent, and \<open>b\<close> and \<open>c\<close> are found. The code breaks the lookup of \<open>a\<close> on a table
  whose other slots are tombstones (the defect of C10): in \<open>collided_map\<close> the keys 0
  and 4 sit in slots 0 and 1 and slots 2 and 3 are tombstoned; after \<open>erase 0\<close> and
  \<open>insert 8\<close> key 8 is in slot 0, keys 4 and 8 are found, and \<open>find 0\<close> never returns.
  On a table fresh from its constructor the scenario runs as the claim says
  (\<open>tombstone_reuse_constructed\<close>).
\<close>

theorem C5_lookup_of_erased_key_never_returns:
  "run identity_map
     [Insert (2, 1), Erase 2, Insert (3, 1), Erase 3, Insert (0, 10), Insert (4, 20)]
     (HashMap 2) = returns collided_map
   \<and> slots_of identity_map collided_map 0 = [0]
   \<and> slots_of identity_map collided_map 4 = [1]
   \<and> run identity_map [Erase 0, Insert (8, 30)] collided_map = returns reused_map
   \<and> slots_of identity_map reused_map 8 = [0]
   \<and> find identity_map 4 reused_map = returns 1
   \<and> find identity_map 8 reused_map = returns 0
   \<and> find identity_map 0 reused_map = None"
proof -
  have "slots_of identity_map collided_map 0 = [0]"
    and "slots_of identity_map collided_map 4 = [1]"
    by (simp_all add: slots_of_def live_slots_def live_def collided_map_def identity_map_def
          map_traits_def upt_rec)
  moreover have "slots_of identity_map reused_map 8 = [0]"
    by (simp add: slots_of_def live_slots_def live_def reused_map_def identity_map_def
          map_traits_def upt_rec)
  moreover have "find identity_map 4 reused_map = returns 1"
    and "find identity_map 8 reused_map = returns 0"
    by (simp_all add: find_def find_index_def probe_loop.simps Let_def identity_map_def
          map_traits_def reused_map_def)
  ultimately show ?thesis
    by (simp only: run_collided_map run_reused_map find_reused_map simp_thms)
qed

text \<open>
  C6. Claim: iterating from \<open>begin()\<close> to \<open>end()\<close> yields the live keys, each exactly
  once. The code breaks it on a table with the duplicate live entries of C1: the iteration
  over \<open>doubled_map\<close> (and \<open>doubled_set\<close>) yields key 4 twice.
\<close>

theorem C6_iteration_yields_key_twice:
  "run identity_map [Insert (0, 10), Insert (4, 20), Erase 0, Insert (4, 30)] (HashMap 0)
     = returns doubled_map
   \<and> iterate doubled_map = returns [(4, 30), (4, 20)]
   \<and> run identity_set [Insert 0, Insert 4, Erase 0, Insert 4] (HashSet 0) = returns doubled_set
   \<and> iterate doubled_set = returns [4, 4]"
proof -
  have "iterate doubled_map = returns [(4, 30), (4, 20)]"
    by (simp add: iterate_def iterate_from.simps increment_def skip_free.simps doubled_map_def)
  moreover have "iterate doubled_set = returns [4, 4]"
    by (simp add: iterate_def iterate_from.simps increment_def skip_free.simps doubled_set_def)
  ultimately show ?thesis
    by (simp only: run_doubled_map run_doubled_set simp_thms)
qed

text \<open>
  C7. Claim: \<open>LinearProbing\<close> advances to \<open>(current + 1) mod modulus\<close>; the \<open>i\<close>-th
  advance of \<open>QuadraticProbing\<close> adds \<open>i\<close> squared modulo the modulus, so the deltas are
  1, 4, 9, 16, and from a start \<open>s\<close> with modulus 8 the candidates are
  \<open>s, s+1, s+5, s+14\<close> modulo 8. Proved for every nonzero modulus, in the wrapping
  arithmetic of \<open>size_t\<close>.
\<close>

theorem C7_probing_sequences:
  assumes "m \<noteq> 0"
  shows "advance (LinearProbing c m) = Inr (LinearProbing ((c + 1) mod m) m)
    \<and> (\<forall>q. advance_n i (QuadraticProbing_new s m) = Inr q \<longrightarrow>
          advance_n (Suc i) (QuadraticProbing_new s m) =
            Inr (QuadraticProbing ((current q + (of_nat (Suc i))\<^sup>2) mod m) m
                   (of_nat (Suc i) + 1)))
    \<and> advance_n 4 (QuadraticProbing_new s m) =
        Inr (QuadraticProbing (((((s + 1) mod m + 4) mod m + 9) mod m + 16) mod m) m 5)
    \<and> candidates 3 (QuadraticProbing_new s 8) =
        [unat s, (unat s + 1) mod 8, (unat s + 5) mod 8, (unat s + 14) mod 8]"
proof -
  have "advance (LinearProbing c m) = Inr (LinearProbing ((c + 1) mod m) m)"
    using assms by simp
  moreover have "advance_n 4 (QuadraticProbing_new s m) =
        Inr (QuadraticProbing (((((s + 1) mod m + 4) mod m + 9) mod m + 16) mod m) m 5)"
    using assms by (simp add: QuadraticProbing_new_def eval_nat_numeral)
  ultimately show ?thesis
    using quadratic_step [OF assms] quadratic_mod8 by blast
qed

theorem C7_probing_sequences_witness:
  "(8 :: 64 word) \<noteq> 0
   \<and> advance (LinearProbing 7 8) = Inr (LinearProbing 0 8)
   \<and> advance_n 1 (QuadraticProbing_new 3 8) = Inr (QuadraticProbing 4 8 2)
   \<and> advance_n 4 (QuadraticProbing_new 3 8) = Inr (QuadraticProbing 1 8 5)
   \<and> candidates 3 (QuadraticProbing_new 3 8) = [3, 4, 0, 1]"
  using C7_probing_sequences [where m = 8 and c = 7 and s = 3 and i = 0]
  by (simp add: QuadraticProbing_new_def)

text \<open>
  C8. Claim: in every reachable state, also after \<open>clear\<close>, \<open>first_ind\<close> is at most every
  live index and equals the physical length exactly when no entry is live. The code
  breaks the second part: \<open>clear\<close> sets \<open>first_ind\<close> to 0, where the constructor, \<open>rehash\<close>
  and the erasure of the last entry set it to \<open>map_max_size * 2\<close>. After \<open>clear\<close> on a
  map of two or four slots \<open>begin()\<close> differs from \<open>end()\<close> and the iteration dereferences
  the empty slot 0.
\<close>

theorem C8_clear_resets_first_ind_to_zero:
  "clear (HashMap 1 :: (nat \<times> nat) table) =
     \<lparr>map_size = 0, map_max_size = 1, hash_map = [None, None], deleted = [True, True],
      first_ind = 0\<rparr>
   \<and> bucket_count (clear (HashMap 1 :: (nat \<times> nat) table)) = 2
   \<and> iterate (clear (HashMap 1 :: (nat \<times> nat) table)) = faults EmptyOptional
   \<and> run identity_map [Insert (0, 10)] (HashMap 0) = returns
       \<lparr>map_size = 1, map_max_size = 2, hash_map = [Some (0, 10), None, None, None],
        deleted = [False, True, True, True], first_ind = 0\<rparr>
   \<and> clear \<lparr>map_size = 1, map_max_size = 2, hash_map = [Some (0, 10 :: nat), None, None, None],
        deleted = [False, True, True, True], first_ind = 0 :: nat\<rparr> =
       \<lparr>map_size = 0, map_max_size = 2, hash_map = [None, None, None, None],
        deleted = [True, True, True, True], first_ind = 0\<rparr>"
  by (simp add: run_simps small_tables identity_map_def clear_def iterate_def
        iterate_from.simps)

text \<open>
  C9. Claim: \<open>rehash(0)\<close> on an empty table gives a minimal nonzero physical length and
  leaves the table usable. Proved: on a table without live entries \<open>rehash(0)\<close> returns
  the fresh table of a map constructed with capacity 2 (four slots) when the table had no
  slots, and with capacity 1 (two slots) otherwise; an insertion into it succeeds and the
  inserted key is found.
\<close>

theorem C9_rehash_zero_on_empty_table:
  assumes "map_size t = 0" and "live_count t = 0"
  shows "\<exists>n t'. n = (if hash_map t = [] then 2 else 1)
    \<and> rehash cfg 0 t = returns (HashMap n)
    \<and> bucket_count (HashMap n :: 'e table) = n * 2
    \<and> 0 < bucket_count (HashMap n :: 'e table)
    \<and> emplace cfg (e :: 'e) (HashMap n) = returns (t', hasher cfg (key_of cfg e) mod (n * 2), True)
    \<and> find cfg (key_of cfg e) t' = returns (hasher cfg (key_of cfg e) mod (n * 2))"
proof -
  define n :: nat where "n = (if hash_map t = [] then 2 else 1)"
  have n: "0 < n" by (simp add: n_def)
  have r: "rehash cfg 0 t = returns (HashMap n)"
    using assms
    by (simp add: rehash_def rehash_with_def live_count_def rehash_loop_no_live n_def)
  have b: "bucket_count (HashMap n :: 'e table) = n * 2"
    by (simp add: bucket_count_def HashMap_def)
  have b0: "0 < bucket_count (HashMap n :: 'e table)"
    using n by (simp add: b)
  show ?thesis
    apply (rule exI [of _ n])
    apply (rule exI)
    apply (intro conjI)
         apply (rule n_def)
        apply (rule r)
       apply (rule b)
      apply (rule b0)
     apply (rule emplace_fresh [OF n])
    apply (rule find_after_emplace_fresh [OF n])
    done
qed

theorem C9_rehash_zero_on_empty_table_witness:
  "map_size (HashMap 0 :: (nat \<times> nat) table) = 0
   \<and> live_count (HashMap 0 :: (nat \<times> nat) table) = 0
   \<and> rehash identity_map 0 (HashMap 0) = returns (HashMap 2)
   \<and> bucket_count (HashMap 2 :: (nat \<times> nat) table) = 4"
proof -
  have h1: "map_size (HashMap 0 :: (nat \<times> nat) table) = 0"
    and h2: "live_count (HashMap 0 :: (nat \<times> nat) table) = 0"
    and h3: "hash_map (HashMap 0 :: (nat \<times> nat) table) = []"
    by (simp_all add: HashMap_def live_count_def)
  from C9_rehash_zero_on_empty_table [OF h1 h2, of identity_map "(5, 6)"]
  have "rehash identity_map 0 (HashMap 0) = returns (HashMap 2)
         \<and> bucket_count (HashMap 2 :: (nat \<times> nat) table) = 2 * 2"
    unfolding h3 by auto
  then show ?thesis using h1 h2 by simp
qed

text \<open>
  C10. Claim: \<open>erase(k)\<close> for a key without a live entry returns 0 and leaves the table
  unchanged. The code breaks it: a lookup walks past every tombstone of another key, and
  the load factor counts live entries only, so tombstones can fill the table. In
  \<open>saturated_map\<close> both slots are tombstoned, and \<open>erase(2)\<close> never returns (the walk of
  \<open>find\<close> alternates between slot 0 and slot 1 for ever).
\<close>

theorem C10_erase_of_absent_key_never_returns:
  "run identity_map [Insert (0, 10), Erase 0, Insert (1, 20), Erase 1] (HashMap 1)
     = returns saturated_map
   \<and> live_slots saturated_map = []
   \<and> erase_key identity_map 2 saturated_map = None"
proof -
  have "live_slots saturated_map = []"
    by (simp add: live_slots_def live_def saturated_map_def upt_rec)
  moreover have "erase_key identity_map 2 saturated_map = None"
    by (simp add: erase_key_def find_saturated_map)
  ultimately show ?thesis
    by (simp only: run_saturated_map simp_thms)
qed

end
